theory Spec2Isabelle
  imports Main "HOL-Library.Word"
begin

section \<open>Process outcomes and the verdict reporters of oi.h\<close>

text \<open>
  Every terminal operation of the library ends the process with \<^verbatim>\<open>_exit(code)\<close> after
  printing to \<^verbatim>\<open>std::cout\<close> or to the error stream of \<^verbatim>\<open>detail::get_error_ostream()\<close>
  (\<^verbatim>\<open>std::cerr\<close> unless changed). A failed \<^verbatim>\<open>assert\<close> and \<^verbatim>\<open>std::terminate()\<close> abort the
  process. A pack of stream arguments \<^verbatim>\<open>Msg&&... msg\<close> is the list of the texts that
  \<^verbatim>\<open>operator<<\<close> prints for them, in order.
\<close>

datatype ostream = Cout | ErrorOstream

datatype outcome = Exit int ostream string | Abort

text \<open>Decimal rendering of \<^verbatim>\<open>operator<<\<close> for \<^verbatim>\<open>size_t\<close> and \<^verbatim>\<open>int\<close>.\<close>

definition digit_char :: "nat \<Rightarrow> char" where
  "digit_char d = ''0123456789'' ! d"

fun show_nat :: "nat \<Rightarrow> string" where
  "show_nat n = (if n < 10 then [digit_char n] else show_nat (n div 10) @ [digit_char (n mod 10)])"

declare show_nat.simps [simp del]

definition show_int :: "int \<Rightarrow> string" where
  "show_int i = (if i < 0 then CHR ''-'' # show_nat (nat (- i)) else show_nat (nat i))"

record CheckerVerdict =
  partial_score :: "int option"
  partial_score_msg :: string

definition checker_verdict :: CheckerVerdict where
  "checker_verdict = \<lparr>partial_score = None, partial_score_msg = []\<rparr>"

text \<open>\<^verbatim>\<open>CheckerVerdict::set_partial_score\<close>: the assertion aborts the process, otherwise both
  fields are overwritten.\<close>

definition set_partial_score :: "int \<Rightarrow> string list \<Rightarrow> CheckerVerdict \<Rightarrow> outcome + CheckerVerdict" where
  "set_partial_score score msg cv =
     (if \<not> (0 \<le> score \<and> score < 100) then Inl Abort
      else Inr (cv\<lparr>partial_score := Some score, partial_score_msg := concat msg\<rparr>))"

text \<open>\<^verbatim>\<open>CheckerVerdict::exit_wrong\<close>: the separator test is on the stored text and on the
  number of arguments of the call (\<^verbatim>\<open>sizeof...(msg) != 0\<close>).\<close>

definition exit_wrong :: "CheckerVerdict \<Rightarrow> string list \<Rightarrow> outcome" where
  "exit_wrong cv msg =
     (case partial_score cv of
        Some score \<Rightarrow>
          Exit 0 Cout (''OK'' @ [CHR 0x0A] @ partial_score_msg cv
            @ (if partial_score_msg cv \<noteq> [] \<and> length msg \<noteq> 0 then ''; '' else [])
            @ concat msg @ [CHR 0x0A]
            @ show_int score @ [CHR 0x0A])
      | None \<Rightarrow>
          Exit 0 Cout (''WRONG'' @ [CHR 0x0A] @ concat msg @ [CHR 0x0A] @ ''0'' @ [CHR 0x0A]))"

text \<open>\<^verbatim>\<open>detail::exit_with_error_msg\<close> and \<^verbatim>\<open>bug\<close>.\<close>

definition exit_with_error_msg :: "int \<Rightarrow> string list \<Rightarrow> outcome" where
  "exit_with_error_msg exit_code msg = Exit exit_code ErrorOstream (concat msg @ [CHR 0x0A])"

definition bug :: "string list \<Rightarrow> outcome" where
  "bug msg = exit_with_error_msg 2 (''BUG: '' # msg)"

text \<open>The end of an \<^verbatim>\<open>InwerVerdict::Stream\<close> expression: \<^verbatim>\<open>~StreamImpl\<close> prints a newline
  when at least one argument was streamed, then exits with the stream's code.\<close>

definition StreamImpl_exit :: "int \<Rightarrow> string list \<Rightarrow> outcome" where
  "StreamImpl_exit exit_code msg =
     Exit exit_code Cout (concat msg @ (if length msg \<noteq> 0 then [CHR 0x0A] else []))"

section \<open>The Scanner\<close>

datatype Mode = UserOutput | Lax | TestInput

datatype Lang = EN | PL

datatype DelayedUnreadChars = WHITESPACE | NEWLINE

record Pos =
  line :: nat
  pos :: nat

text \<open>The \<^verbatim>\<open>FILE* file\<close> is \<open>file_bytes\<close>, the list of the bytes not yet returned by \<^verbatim>\<open>getc_unlocked\<close>.
  Characters held in an \<^verbatim>\<open>int\<close> are integers, \<^verbatim>\<open>EOF\<close> is -1.\<close>

record Scanner =
  file_bytes :: string
  mode :: Mode
  lang :: Lang
  next_char_pos :: Pos
  last_char_pos :: Pos
  prev_last_char_pos :: Pos
  eofed :: bool
  next_char :: "int option"
  delayed_unread_chars :: "DelayedUnreadChars list"

definition EOF :: int where
  "EOF = - 1"

definition new_Scanner :: "string \<Rightarrow> Mode \<Rightarrow> Lang \<Rightarrow> Scanner" where
  "new_Scanner f m l =
     \<lparr>file_bytes = f, mode = m, lang = l,
      next_char_pos = \<lparr>line = 1, pos = 1\<rparr>,
      last_char_pos = \<lparr>line = 1, pos = 1\<rparr>,
      prev_last_char_pos = \<lparr>line = 1, pos = 1\<rparr>,
      eofed = False, next_char = None, delayed_unread_chars = []\<rparr>"

text \<open>An operation either returns a value and the updated scanner, or calls
  \<^verbatim>\<open>Scanner::error(msg...)\<close> (recorded with the scanner as it is at that call), or aborts.\<close>

datatype 'a result = Done 'a Scanner | Failed "string list" Scanner | Crashed

text \<open>The value an operation stored in its destination, when it returned.\<close>

definition returned :: "'a result \<Rightarrow> 'a option" where
  "returned r = (case r of Done x s \<Rightarrow> Some x | Failed msg s \<Rightarrow> None | Crashed \<Rightarrow> None)"

definition and_then :: "'a result \<Rightarrow> ('a \<Rightarrow> Scanner \<Rightarrow> 'b result) \<Rightarrow> 'b result" where
  "and_then m f = (case m of Done x s \<Rightarrow> f x s | Failed msg s \<Rightarrow> Failed msg s | Crashed \<Rightarrow> Crashed)"

text \<open>\<^verbatim>\<open>do_error\<close> and \<^verbatim>\<open>Scanner::error\<close>: the channel is chosen by the mode, the position
  printed is \<^verbatim>\<open>last_char_pos\<close>.\<close>

definition do_error :: "CheckerVerdict \<Rightarrow> Mode \<Rightarrow> string list \<Rightarrow> outcome" where
  "do_error cv m msg =
     (case m of
        UserOutput \<Rightarrow> exit_wrong cv msg
      | Lax \<Rightarrow> exit_with_error_msg 4 (''Lax scanner: '' # msg)
      | TestInput \<Rightarrow> StreamImpl_exit 1 msg)"

definition error :: "CheckerVerdict \<Rightarrow> Scanner \<Rightarrow> string list \<Rightarrow> outcome" where
  "error cv s msg =
     (case lang s of
        EN \<Rightarrow> do_error cv (mode s)
          ([''Line '', show_nat (line (last_char_pos s)), '', position '',
            show_nat (pos (last_char_pos s)), '': ''] @ msg)
      | PL \<Rightarrow> do_error cv (mode s)
          ([''Wiersz '', show_nat (line (last_char_pos s)), '', pozycja '',
            show_nat (pos (last_char_pos s)), '': ''] @ msg))"

definition outcome_of :: "CheckerVerdict \<Rightarrow> 'a result \<Rightarrow> outcome option" where
  "outcome_of cv r =
     (case r of Done x s \<Rightarrow> None | Failed msg s \<Rightarrow> Some (error cv s msg) | Crashed \<Rightarrow> Some Abort)"

definition read_eof_expected_a_string :: "Lang \<Rightarrow> string" where
  "read_eof_expected_a_string l =
     (case l of EN \<Rightarrow> ''Read EOF, expected a string'' | PL \<Rightarrow> ''Wczytano EOF, oczekiwano napisu'')"

definition too_long_string :: "Lang \<Rightarrow> string" where
  "too_long_string l = (case l of EN \<Rightarrow> ''Too long string'' | PL \<Rightarrow> ''Zbyt dlugi napis'')"

definition read_eof_expected_a_number :: "Lang \<Rightarrow> string" where
  "read_eof_expected_a_number l =
     (case l of EN \<Rightarrow> ''Read EOF, expected a number'' | PL \<Rightarrow> ''Wczytano EOF, oczekiwano liczby'')"

definition read_minus_expected_a_positive_number :: "Lang \<Rightarrow> string" where
  "read_minus_expected_a_positive_number l =
     (case l of EN \<Rightarrow> ''Read '' @ [CHR 0x27] @ ''-'' @ [CHR 0x27] @ '', expected a non-negative number''
      | PL \<Rightarrow> ''Wczytano '' @ [CHR 0x27] @ ''-'' @ [CHR 0x27] @ '', oczekiwano nieujemnej liczby'')"

definition integer_value_out_of_range :: "Lang \<Rightarrow> string" where
  "integer_value_out_of_range l =
     (case l of EN \<Rightarrow> ''Integer value out of range'' | PL \<Rightarrow> ''Liczba calkowita spoza zakresu'')"

definition real_number_value_out_of_range :: "Lang \<Rightarrow> string" where
  "real_number_value_out_of_range l =
     (case l of EN \<Rightarrow> ''Real number value out of range'' | PL \<Rightarrow> ''Liczba rzeczywista spoza zakresu'')"

text \<open>The \<^verbatim>\<open><cctype>\<close> predicates in the "C" locale.\<close>

definition isspace :: "int \<Rightarrow> bool" where
  "isspace ch = (ch = 32 \<or> (9 \<le> ch \<and> ch \<le> 13))"

definition isdigit :: "int \<Rightarrow> bool" where
  "isdigit ch = (48 \<le> ch \<and> ch \<le> 57)"

definition isgraph :: "int \<Rightarrow> bool" where
  "isgraph ch = (33 \<le> ch \<and> ch \<le> 126)"

definition getc_unlocked :: "string \<Rightarrow> int \<times> string" where
  "getc_unlocked f = (case f of [] \<Rightarrow> (EOF, []) | c # cs \<Rightarrow> (of_char c, cs))"

definition advance :: "int \<Rightarrow> Pos \<Rightarrow> Pos" where
  "advance ch p = (if ch = 10 then \<lparr>line = line p + 1, pos = 1\<rparr> else p\<lparr>pos := pos p + 1\<rparr>)"

text \<open>\<^verbatim>\<open>Scanner::getchar\<close>: \<open>None\<close> is the return value \<^verbatim>\<open>false\<close>. The positions move
  also when the character obtained is \<^verbatim>\<open>EOF\<close>; nothing moves once \<^verbatim>\<open>eofed\<close> is set.\<close>

definition getchar :: "Scanner \<Rightarrow> int option \<times> Scanner" where
  "getchar s =
     (if eofed s then (None, s)
      else
        let (ch, s1) =
              (case next_char s of
                 Some c \<Rightarrow> (c, s\<lparr>next_char := None\<rparr>)
               | None \<Rightarrow> (case getc_unlocked (file_bytes s) of (c, f) \<Rightarrow> (c, s\<lparr>file_bytes := f\<rparr>)));
            s2 = s1\<lparr>eofed := (ch = EOF),
                    prev_last_char_pos := last_char_pos s1,
                    last_char_pos := next_char_pos s1,
                    next_char_pos := advance ch (next_char_pos s1)\<rparr>
        in (if ch = EOF then None else Some ch, s2))"

text \<open>\<^verbatim>\<open>Scanner::ungetchar\<close>: the assertion allows one pushed-back character only.\<close>

definition ungetchar :: "int \<Rightarrow> Scanner \<Rightarrow> unit result" where
  "ungetchar ch s =
     (if next_char s \<noteq> None then Crashed
      else Done () (s\<lparr>next_char := Some ch,
                       next_char_pos := last_char_pos s,
                       last_char_pos := prev_last_char_pos s,
                       eofed := False\<rparr>))"

definition quote :: char where
  "quote = CHR 0x27"

definition backslash :: char where
  "backslash = CHR 0x5C"

text \<open>\<^verbatim>\<open>Scanner::char_description\<close>. The array \<^verbatim>\<open>digits\<close> has 17 elements, the last one the
  terminating zero. An index outside the array is undefined behaviour in the source, and the
  model leaves the character read there unspecified: this is the case of a negative \<^verbatim>\<open>ch\<close>,
  which is a \<^verbatim>\<open>char\<close> literal above \<^verbatim>\<open>0x7f\<close> where \<^verbatim>\<open>char\<close> is signed (\<^verbatim>\<open>ch >> 4\<close> is then
  negative). The bytes that \<^verbatim>\<open>getchar\<close> returns are between 0 and 255.\<close>

definition digits :: "int \<Rightarrow> char" where
  "digits i =
     (if 0 \<le> i \<and> i < 16 then ''0123456789abcdef'' ! nat i
      else if i = 16 then CHR 0x00
      else undefined)"

definition char_description :: "int \<Rightarrow> string" where
  "char_description ch =
     (if isgraph ch then [quote, char_of ch, quote]
      else if ch = 32 then [quote, CHR '' '', quote]
      else if ch = 10 then [quote, backslash, CHR ''n'', quote]
      else if ch = 13 then [quote, backslash, CHR ''r'', quote]
      else if ch = 9 then [quote, backslash, CHR ''t'', quote]
      else if ch = 0 then [quote, backslash, CHR ''0'', quote]
      else [quote, backslash, CHR ''x'', digits (ch div 16), digits (ch mod 16), quote])"

text \<open>The number of \<^verbatim>\<open>getchar\<close> calls that can still return a character bounds every loop.\<close>

definition remaining :: "Scanner \<Rightarrow> nat" where
  "remaining s =
     (if eofed s then 0
      else length (file_bytes s) + (case next_char s of None \<Rightarrow> 1 | Some c \<Rightarrow> 2))"

lemma of_char_neq_EOF: "(of_char c :: int) \<noteq> EOF"
proof -
  have "(of_char c :: int) = int (of_char c)" by (simp only: of_nat_of_char)
  then have "0 \<le> (of_char c :: int)" by linarith
  then show ?thesis by (simp add: EOF_def)
qed

lemma getchar_remaining: "getchar s = (Some ch, s1) \<Longrightarrow> remaining s1 < remaining s"
  by (auto simp: getchar_def remaining_def getc_unlocked_def Let_def of_char_neq_EOF
      split: if_splits option.splits list.splits prod.splits)

text \<open>The two lambdas of \<^verbatim>\<open>read_delayed_unread_chars\<close>.\<close>

definition do_read_char :: "string \<Rightarrow> Scanner \<Rightarrow> int result" where
  "do_read_char char_description_str s =
     (case getchar s of
        (None, s1) \<Rightarrow>
          Failed (case lang s1 of
                    EN \<Rightarrow> [''Read EOF, expected '', char_description_str]
                  | PL \<Rightarrow> [''Wczytano EOF, oczekiwano '', char_description_str]) s1
      | (Some ch, s1) \<Rightarrow> Done ch s1)"

definition unexpected_char_error :: "int \<Rightarrow> string \<Rightarrow> Scanner \<Rightarrow> 'a result" where
  "unexpected_char_error ch expected_char_description_str s =
     Failed (case lang s of
               EN \<Rightarrow> [''Read '', char_description ch, '', expected '', expected_char_description_str]
             | PL \<Rightarrow> [''Wczytano '', char_description ch, '', oczekiwano '',
                      expected_char_description_str]) s"

lemma do_read_char_remaining: "do_read_char d s = Done ch s1 \<Longrightarrow> remaining s1 < remaining s"
  by (auto simp: do_read_char_def split: prod.splits option.splits dest: getchar_remaining)

text \<open>The inner \<^verbatim>\<open>for (;;)\<close> of the \<^verbatim>\<open>NEWLINE\<close> case: inline whitespace is skipped up to
  the newline.\<close>

function read_newline_loop :: "Scanner \<Rightarrow> unit result" where
  "read_newline_loop s =
     (case do_read_char [quote, backslash, CHR ''n'', quote] s of
        Done ch s1 \<Rightarrow>
          if ch = 10 then Done () s1
          else if isspace ch then read_newline_loop s1
          else unexpected_char_error ch [quote, backslash, CHR ''n'', quote] s1
      | Failed msg s1 \<Rightarrow> Failed msg s1
      | Crashed \<Rightarrow> Crashed)"
  by pat_completeness auto
termination
  by (relation "measure remaining") (auto dest: do_read_char_remaining)

declare read_newline_loop.simps [simp del]

text \<open>The loop over the queue in \<^verbatim>\<open>read_delayed_unread_chars\<close>, and the function itself.\<close>

fun read_delayed :: "DelayedUnreadChars list \<Rightarrow> Scanner \<Rightarrow> unit result" where
  "read_delayed [] s = Done () s"
| "read_delayed (d # ds) s =
     (case d of
        WHITESPACE \<Rightarrow>
          (case mode s of
             TestInput \<Rightarrow> Crashed
           | _ \<Rightarrow>
               (case do_read_char [quote, CHR '' '', quote] s of
                  Done ch s1 \<Rightarrow>
                    if \<not> isspace ch \<or> ch = 10
                    then unexpected_char_error ch [quote, CHR '' '', quote] s1
                    else read_delayed ds s1
                | Failed msg s1 \<Rightarrow> Failed msg s1
                | Crashed \<Rightarrow> Crashed))
      | NEWLINE \<Rightarrow>
          (case mode s of
             TestInput \<Rightarrow> Crashed
           | _ \<Rightarrow> and_then (read_newline_loop s) (\<lambda>_ s1. read_delayed ds s1)))"

definition read_delayed_unread_chars :: "Scanner \<Rightarrow> unit result" where
  "read_delayed_unread_chars s =
     and_then (read_delayed (delayed_unread_chars s) s)
       (\<lambda>_ s1. Done () (s1\<lparr>delayed_unread_chars := []\<rparr>))"

text \<open>\<^verbatim>\<open>operator>>(IgnoreWsType)\<close>: its loop, then the operator.\<close>

function ignore_ws_loop :: "Scanner \<Rightarrow> unit result" where
  "ignore_ws_loop s =
     (case getchar s of
        (None, s1) \<Rightarrow> ungetchar EOF s1
      | (Some ch, s1) \<Rightarrow>
          if ch = 10 \<or> \<not> isspace ch then ungetchar ch s1 else ignore_ws_loop s1)"
  by pat_completeness auto
termination
  by (relation "measure remaining") (auto dest: getchar_remaining [OF sym])

declare ignore_ws_loop.simps [simp del]

definition scan_ignore_ws :: "Scanner \<Rightarrow> unit result" where
  "scan_ignore_ws s = and_then (read_delayed_unread_chars s) (\<lambda>_ s1. ignore_ws_loop s1)"

text \<open>The second \<^verbatim>\<open>switch (mode)\<close> shared by the extraction operators.\<close>

definition ignore_ws_if_lenient :: "Scanner \<Rightarrow> unit result" where
  "ignore_ws_if_lenient s =
     (case mode s of
        UserOutput \<Rightarrow> scan_ignore_ws s
      | Lax \<Rightarrow> scan_ignore_ws s
      | TestInput \<Rightarrow> Done () s)"

text \<open>\<^verbatim>\<open>operator>>(const char& c)\<close>; \<open>c\<close> is the value of the \<^verbatim>\<open>char\<close> as an \<^verbatim>\<open>int\<close>.\<close>

definition enqueues :: "Mode \<Rightarrow> int \<Rightarrow> bool" where
  "enqueues m c = (case m of UserOutput \<Rightarrow> isspace c | Lax \<Rightarrow> isspace c | TestInput \<Rightarrow> False)"

definition scan_char :: "int \<Rightarrow> Scanner \<Rightarrow> unit result" where
  "scan_char c s =
     (if enqueues (mode s) c then
        Done () (s\<lparr>delayed_unread_chars :=
                      delayed_unread_chars s @ [if c = 10 then NEWLINE else WHITESPACE]\<rparr>)
      else
        and_then (read_delayed_unread_chars s) (\<lambda>_ s1.
        and_then (ignore_ws_if_lenient s1) (\<lambda>_ s2.
          case getchar s2 of
            (None, s3) \<Rightarrow>
              Failed (case lang s3 of
                        EN \<Rightarrow> [''Read EOF, expected '', char_description c]
                      | PL \<Rightarrow> [''Wczytano EOF, oczekiwano '', char_description c]) s3
          | (Some ch, s3) \<Rightarrow>
              if ch \<noteq> c then
                Failed (case lang s3 of
                          EN \<Rightarrow> [''Read '', char_description ch, '', expected '', char_description c]
                        | PL \<Rightarrow> [''Wczytano '', char_description ch, '', oczekiwano '',
                                 char_description c]) s3
              else Done () s3)))"

definition scan_nl :: "Scanner \<Rightarrow> unit result" where
  "scan_nl s = scan_char 10 s"

text \<open>\<^verbatim>\<open>operator>>(EofType)\<close>: the final \<^verbatim>\<open>getchar\<close> test, the lenient skipping loop (which
  returns from the operator at end of stream), and the operator.\<close>

definition expect_eof :: "Scanner \<Rightarrow> unit result" where
  "expect_eof s =
     (case getchar s of
        (Some ch, s1) \<Rightarrow>
          Failed (case lang s1 of
                    EN \<Rightarrow> [''Read '', char_description ch, '', expected EOF'']
                  | PL \<Rightarrow> [''Wczytano '', char_description ch, '', oczekiwano EOF'']) s1
      | (None, s1) \<Rightarrow> Done () s1)"

function eof_skip_loop :: "Scanner \<Rightarrow> unit result" where
  "eof_skip_loop s =
     (case getchar s of
        (None, s1) \<Rightarrow> Done () s1
      | (Some ch, s1) \<Rightarrow>
          if \<not> isspace ch then and_then (ungetchar ch s1) (\<lambda>_ s2. expect_eof s2)
          else eof_skip_loop s1)"
  by pat_completeness auto
termination
  by (relation "measure remaining") (auto dest: getchar_remaining [OF sym])

declare eof_skip_loop.simps [simp del]

definition scan_eof :: "Scanner \<Rightarrow> unit result" where
  "scan_eof s =
     (case mode s of
        UserOutput \<Rightarrow> eof_skip_loop (s\<lparr>delayed_unread_chars := []\<rparr>)
      | Lax \<Rightarrow> eof_skip_loop (s\<lparr>delayed_unread_chars := []\<rparr>)
      | TestInput \<Rightarrow> expect_eof s)"

text \<open>\<^verbatim>\<open>operator>>(Line)\<close>: \<^verbatim>\<open>max_size\<close> is a field of \<^verbatim>\<open>Line\<close> that the operator never reads.\<close>

function Line_loop :: "string \<Rightarrow> Scanner \<Rightarrow> string result" where
  "Line_loop var s =
     (case getchar s of
        (None, s1) \<Rightarrow> and_then (ungetchar EOF s1) (\<lambda>_ s2. Done var s2)
      | (Some ch, s1) \<Rightarrow>
          if ch = 10 then and_then (ungetchar ch s1) (\<lambda>_ s2. Done var s2)
          else Line_loop (var @ [char_of ch]) s1)"
  by pat_completeness auto
termination
  by (relation "measure (\<lambda>(var, s). remaining s)") (auto dest: getchar_remaining [OF sym])

declare Line_loop.simps [simp del]

definition scan_Line :: "nat \<Rightarrow> Scanner \<Rightarrow> string result" where
  "scan_Line max_size s = and_then (read_delayed_unread_chars s) (\<lambda>_ s1. Line_loop [] s1)"

text \<open>\<^verbatim>\<open>operator>>(Str)\<close>; the constructor of \<^verbatim>\<open>Str\<close> asserts \<^verbatim>\<open>max_size > 0\<close>.\<close>

function Str_loop :: "nat \<Rightarrow> string \<Rightarrow> int \<Rightarrow> Scanner \<Rightarrow> string result" where
  "Str_loop max_size var ch s =
     (if length (var @ [char_of ch]) > max_size then Failed [too_long_string (lang s)] s
      else
        case getchar s of
          (None, s1) \<Rightarrow> and_then (ungetchar EOF s1) (\<lambda>_ s2. Done (var @ [char_of ch]) s2)
        | (Some ch', s1) \<Rightarrow>
            if isspace ch' then and_then (ungetchar ch' s1) (\<lambda>_ s2. Done (var @ [char_of ch]) s2)
            else Str_loop max_size (var @ [char_of ch]) ch' s1)"
  by pat_completeness auto
termination
  by (relation "measure (\<lambda>(max_size, var, ch, s). remaining s)") (auto dest: getchar_remaining [OF sym])

declare Str_loop.simps [simp del]

definition scan_Str :: "nat \<Rightarrow> Scanner \<Rightarrow> string result" where
  "scan_Str max_size s =
     (if \<not> max_size > 0 then Crashed
      else
        and_then (read_delayed_unread_chars s) (\<lambda>_ s1.
        and_then (ignore_ws_if_lenient s1) (\<lambda>_ s2.
          case getchar s2 of
            (None, s3) \<Rightarrow> Failed [read_eof_expected_a_string (lang s3)] s3
          | (Some ch, s3) \<Rightarrow>
              if isspace ch then
                Failed (case lang s3 of
                          EN \<Rightarrow> [''Read '', char_description ch, '', expected a string'']
                        | PL \<Rightarrow> [''Wczytano '', char_description ch, '', oczekiwano napisu'']) s3
              else Str_loop max_size [] ch s3)))"

text \<open>\<^verbatim>\<open>operator>>(Char)\<close>: \<^verbatim>\<open>strchr\<close> also finds the terminating zero byte of
  \<^verbatim>\<open>variants\<close>.\<close>

definition strchr_finds :: "string \<Rightarrow> int \<Rightarrow> bool" where
  "strchr_finds variants ch = (ch = 0 \<or> ch \<in> of_char ` set variants)"

definition scan_Char :: "string \<Rightarrow> Scanner \<Rightarrow> char result" where
  "scan_Char variants s =
     and_then (read_delayed_unread_chars s) (\<lambda>_ s1.
     and_then (ignore_ws_if_lenient s1) (\<lambda>_ s2.
       case getchar s2 of
         (None, s3) \<Rightarrow>
           Failed (case lang s3 of
                     EN \<Rightarrow> [''Read EOF, expected one of characters: '', variants]
                   | PL \<Rightarrow> [''Wczytano EOF, oczekiwano jednego ze znakow: '', variants]) s3
       | (Some ch, s3) \<Rightarrow>
           if \<not> strchr_finds variants ch then
             Failed (case lang s3 of
                       EN \<Rightarrow> [''Read '', char_description ch, '', expected one of characters: '',
                              variants]
                     | PL \<Rightarrow> [''Wczytano '', char_description ch,
                              '', oczekiwano jednego ze znakow: '', variants]) s3
           else Done (char_of ch) s3))"

text \<open>The integral target types \<^verbatim>\<open>T\<close> of \<^verbatim>\<open>Num<T>\<close>, by signedness and width, and the
  overflow builtins of GCC: they report whether the exact result leaves the type.\<close>

datatype int_type = Signed nat | Unsigned nat

fun T_min :: "int_type \<Rightarrow> int" where
  "T_min (Signed w) = - (2 ^ (w - 1))"
| "T_min (Unsigned w) = 0"

fun T_max :: "int_type \<Rightarrow> int" where
  "T_max (Signed w) = 2 ^ (w - 1) - 1"
| "T_max (Unsigned w) = 2 ^ w - 1"

fun is_unsigned :: "int_type \<Rightarrow> bool" where
  "is_unsigned (Signed w) = False"
| "is_unsigned (Unsigned w) = True"

definition fits :: "int_type \<Rightarrow> int \<Rightarrow> bool" where
  "fits T v = (T_min T \<le> v \<and> v \<le> T_max T)"

definition builtin_mul_overflow :: "int_type \<Rightarrow> int \<Rightarrow> int \<Rightarrow> bool" where
  "builtin_mul_overflow T a b = (\<not> fits T (a * b))"

definition builtin_add_overflow :: "int_type \<Rightarrow> int \<Rightarrow> int \<Rightarrow> bool" where
  "builtin_add_overflow T a b = (\<not> fits T (a + b))"

definition builtin_sub_overflow :: "int_type \<Rightarrow> int \<Rightarrow> int \<Rightarrow> bool" where
  "builtin_sub_overflow T a b = (\<not> fits T (a - b))"

text \<open>\<^verbatim>\<open>Scanner::scan_integer\<close>: the digit loop, the check of the first digit, the function.\<close>

function digits_loop :: "int_type \<Rightarrow> bool \<Rightarrow> int \<Rightarrow> Scanner \<Rightarrow> int result" where
  "digits_loop T is_minus val s =
     (case getchar s of
        (None, s1) \<Rightarrow> and_then (ungetchar EOF s1) (\<lambda>_ s2. Done val s2)
      | (Some ch, s1) \<Rightarrow>
          if \<not> isdigit ch then and_then (ungetchar ch s1) (\<lambda>_ s2. Done val s2)
          else if builtin_mul_overflow T val 10 then
            Failed [integer_value_out_of_range (lang s1)] s1
          else if \<not> is_minus \<and> builtin_add_overflow T (val * 10) (ch - 48) then
            Failed [integer_value_out_of_range (lang s1)] s1
          else if is_minus \<and> builtin_sub_overflow T (val * 10) (ch - 48) then
            Failed [integer_value_out_of_range (lang s1)] s1
          else digits_loop T is_minus (if is_minus then val * 10 - (ch - 48) else val * 10 + (ch - 48)) s1)"
  by pat_completeness auto
termination
  by (relation "measure (\<lambda>(T, is_minus, val, s). remaining s)") (auto dest: getchar_remaining [OF sym])

declare digits_loop.simps [simp del]

definition first_digit :: "int_type \<Rightarrow> bool \<Rightarrow> int \<Rightarrow> Scanner \<Rightarrow> int result" where
  "first_digit T is_minus ch s =
     (if ch < 48 \<or> 57 < ch then
        Failed (case lang s of
                  EN \<Rightarrow> [''Read '', char_description ch, '', expected a number'']
                | PL \<Rightarrow> [''Wczytano '', char_description ch, '', oczekiwano liczby'']) s
      else digits_loop T is_minus (if is_minus then 48 - ch else ch - 48) s)"

definition scan_integer :: "int_type \<Rightarrow> Scanner \<Rightarrow> int result" where
  "scan_integer T s =
     (case getchar s of
        (None, s1) \<Rightarrow> Failed [read_eof_expected_a_number (lang s1)] s1
      | (Some ch, s1) \<Rightarrow>
          if ch = 45 then
            (if is_unsigned T then Failed [read_minus_expected_a_positive_number (lang s1)] s1
             else
               case getchar s1 of
                 (None, s2) \<Rightarrow> Failed [read_eof_expected_a_number (lang s2)] s2
               | (Some ch2, s2) \<Rightarrow> first_digit T True ch2 s2)
          else first_digit T False ch s1)"

text \<open>\<^verbatim>\<open>operator>>(Num<T>)\<close> for an integral \<^verbatim>\<open>T\<close>; the constructor of \<^verbatim>\<open>Num\<close> asserts
  \<^verbatim>\<open>min <= max\<close>.\<close>

definition scan_Num :: "int_type \<Rightarrow> int \<Rightarrow> int \<Rightarrow> Scanner \<Rightarrow> int result" where
  "scan_Num T min_val max_val s =
     (if \<not> min_val \<le> max_val then Crashed
      else
        and_then (read_delayed_unread_chars s) (\<lambda>_ s1.
        and_then (ignore_ws_if_lenient s1) (\<lambda>_ s2.
        and_then (scan_integer T s2) (\<lambda>var s3.
          if var < min_val \<or> var > max_val then Failed [integer_value_out_of_range (lang s3)] s3
          else Done var s3))))"

text \<open>
  \<^verbatim>\<open>Scanner::scan_floating_point\<close> and \<^verbatim>\<open>operator>>(Num<T>)\<close> for a floating-point \<^verbatim>\<open>T\<close>.
  The arithmetic of \<^verbatim>\<open>T\<close> is a parameter: the conversion of an \<^verbatim>\<open>int\<close>, the operations
  \<^verbatim>\<open>+\<close>, \<^verbatim>\<open>-\<close>, \<^verbatim>\<open>*\<close>, the update \<^verbatim>\<open>pow10 *= 0.1\<close>, \<^verbatim>\<open>std::isinf\<close> and the comparisons.
\<close>

record 'f float_ops =
  fl_of_int :: "int \<Rightarrow> 'f"
  fl_add :: "'f \<Rightarrow> 'f \<Rightarrow> 'f"
  fl_sub :: "'f \<Rightarrow> 'f \<Rightarrow> 'f"
  fl_mul :: "'f \<Rightarrow> 'f \<Rightarrow> 'f"
  fl_times_tenth :: "'f \<Rightarrow> 'f"
  fl_isinf :: "'f \<Rightarrow> bool"
  fl_less :: "'f \<Rightarrow> 'f \<Rightarrow> bool"
  fl_le :: "'f \<Rightarrow> 'f \<Rightarrow> bool"

text \<open>The first loop: it returns from the function at the end of the stream and at a
  non-digit (second component \<open>False\<close>), and breaks at the point (\<open>True\<close>).\<close>

function integer_part_loop :: "'f float_ops \<Rightarrow> bool \<Rightarrow> 'f \<Rightarrow> Scanner \<Rightarrow> ('f \<times> bool) result" where
  "integer_part_loop F is_minus val s =
     (case getchar s of
        (None, s1) \<Rightarrow> and_then (ungetchar EOF s1) (\<lambda>_ s2. Done (val, False) s2)
      | (Some ch, s1) \<Rightarrow>
          if ch = 46 then Done (val, True) s1
          else if \<not> isdigit ch then and_then (ungetchar ch s1) (\<lambda>_ s2. Done (val, False) s2)
          else
            let val1 = fl_mul F val (fl_of_int F 10);
                val2 = (if \<not> is_minus then fl_add F val1 (fl_of_int F (ch - 48))
                        else fl_sub F val1 (fl_of_int F (ch - 48)))
            in if fl_isinf F val2 then Failed [real_number_value_out_of_range (lang s1)] s1
               else integer_part_loop F is_minus val2 s1)"
  by pat_completeness auto
termination
  by (relation "measure (\<lambda>(F, is_minus, val, s). remaining s)")
    (auto dest: getchar_remaining [OF sym])

declare integer_part_loop.simps [simp del]

function fraction_loop :: "'f float_ops \<Rightarrow> 'f \<Rightarrow> 'f \<Rightarrow> Scanner \<Rightarrow> 'f result" where
  "fraction_loop F pow10 subpoint s =
     (case getchar s of
        (None, s1) \<Rightarrow> and_then (ungetchar EOF s1) (\<lambda>_ s2. Done subpoint s2)
      | (Some ch, s1) \<Rightarrow>
          if \<not> isdigit ch then and_then (ungetchar ch s1) (\<lambda>_ s2. Done subpoint s2)
          else
            fraction_loop F (fl_times_tenth F pow10)
              (fl_add F subpoint (fl_mul F (fl_times_tenth F pow10) (fl_of_int F (ch - 48)))) s1)"
  by pat_completeness auto
termination
  by (relation "measure (\<lambda>(F, pow10, subpoint, s). remaining s)")
    (auto dest: getchar_remaining [OF sym])

declare fraction_loop.simps [simp del]

definition first_real_digit :: "'f float_ops \<Rightarrow> bool \<Rightarrow> int \<Rightarrow> Scanner \<Rightarrow> 'f result" where
  "first_real_digit F is_minus ch s =
     (if ch < 48 \<or> 57 < ch then
        Failed (case lang s of
                  EN \<Rightarrow> [''Read '', char_description ch, '', expected a number'']
                | PL \<Rightarrow> [''Wczytano '', char_description ch, '', oczekiwano liczby'']) s
      else
        and_then (integer_part_loop F is_minus (fl_of_int F (if is_minus then 48 - ch else ch - 48)) s)
          (\<lambda>(val, point) s1.
             if \<not> point then Done val s1
             else
               and_then (fraction_loop F (fl_of_int F 1) (fl_of_int F 0) s1) (\<lambda>subpoint s2.
                 let val' = (if \<not> is_minus then fl_add F val subpoint else fl_sub F val subpoint)
                 in if fl_isinf F val' then Failed [real_number_value_out_of_range (lang s2)] s2
                    else Done val' s2)))"

definition scan_floating_point :: "'f float_ops \<Rightarrow> Scanner \<Rightarrow> 'f result" where
  "scan_floating_point F s =
     (case getchar s of
        (None, s1) \<Rightarrow> Failed [read_eof_expected_a_number (lang s1)] s1
      | (Some ch, s1) \<Rightarrow>
          if ch = 45 then
            (case getchar s1 of
               (None, s2) \<Rightarrow> Failed [read_eof_expected_a_number (lang s2)] s2
             | (Some ch2, s2) \<Rightarrow> first_real_digit F True ch2 s2)
          else first_real_digit F False ch s1)"

definition scan_Num_real :: "'f float_ops \<Rightarrow> 'f \<Rightarrow> 'f \<Rightarrow> Scanner \<Rightarrow> 'f result" where
  "scan_Num_real F min_val max_val s =
     (if \<not> fl_le F min_val max_val then Crashed
      else
        and_then (read_delayed_unread_chars s) (\<lambda>_ s1.
        and_then (ignore_ws_if_lenient s1) (\<lambda>_ s2.
        and_then (scan_floating_point F s2) (\<lambda>var s3.
          if fl_less F var min_val \<or> fl_less F max_val var
          then Failed [real_number_value_out_of_range (lang s3)] s3
          else Done var s3))))"

text \<open>\<^verbatim>\<open>Scanner::do_destructor_checks\<close>, and the destructor \<^verbatim>\<open>~Scanner\<close> as far as the
  process outcome goes (\<open>None\<close>: the process goes on).\<close>

definition do_destructor_checks :: "Scanner \<Rightarrow> unit result" where
  "do_destructor_checks s =
     (case mode s of
        UserOutput \<Rightarrow> scan_eof s
      | TestInput \<Rightarrow> scan_eof s
      | Lax \<Rightarrow> Done () s)"

definition Scanner_destructor :: "CheckerVerdict \<Rightarrow> Scanner \<Rightarrow> outcome option" where
  "Scanner_destructor cv s = outcome_of cv (do_destructor_checks s)"

text \<open>The loop \<^verbatim>\<open>for (auto* scanner : get_all_scanners())\<close> over the registered scanners, in
  the order of the set; the first failing check ends the process.\<close>

fun all_destructor_checks :: "CheckerVerdict \<Rightarrow> Scanner list \<Rightarrow> outcome option" where
  "all_destructor_checks cv [] = None"
| "all_destructor_checks cv (s # ss) =
     (case outcome_of cv (do_destructor_checks s) of
        Some out \<Rightarrow> Some out
      | None \<Rightarrow> all_destructor_checks cv ss)"

definition exit_ok :: "CheckerVerdict \<Rightarrow> Scanner list \<Rightarrow> outcome" where
  "exit_ok cv scanners =
     (case all_destructor_checks cv scanners of
        Some out \<Rightarrow> out
      | None \<Rightarrow> Exit 0 Cout (''OK'' @ [CHR 0x0A] @ [CHR 0x0A] @ ''100'' @ [CHR 0x0A]))"

definition exit_ok_with_score :: "CheckerVerdict \<Rightarrow> Scanner list \<Rightarrow> int \<Rightarrow> string list \<Rightarrow> outcome" where
  "exit_ok_with_score cv scanners score msg =
     (if \<not> (0 \<le> score \<and> score \<le> 100) then Abort
      else
        case (if score = 100 then all_destructor_checks cv scanners else None) of
          Some out \<Rightarrow> out
        | None \<Rightarrow>
            Exit 0 Cout (''OK'' @ [CHR 0x0A] @ concat msg @ [CHR 0x0A] @ show_int score @ [CHR 0x0A]))"

text \<open>\<^verbatim>\<open>InwerVerdict::Stream::operator()\<close> followed by the streamed comment:
  \<^verbatim>\<open>inwer_verdict.exit_ok()\<close> has exit code 0, \<^verbatim>\<open>inwer_verdict.exit_wrong()\<close> has 1.\<close>

definition InwerVerdict_Stream :: "int \<Rightarrow> CheckerVerdict \<Rightarrow> Scanner list \<Rightarrow> string list \<Rightarrow> outcome" where
  "InwerVerdict_Stream exit_code cv scanners msg =
     (case (if exit_code = 0 then all_destructor_checks cv scanners else None) of
        Some out \<Rightarrow> out
      | None \<Rightarrow> StreamImpl_exit exit_code msg)"

text \<open>A tool's calls on one scanner, run in order until one fails.\<close>

datatype 'f call =
    CharLit int | Eof | Nl | IgnoreWs | ReadLine nat | ReadStr nat | ReadChar string
  | ReadNum int_type int int | ReadReal 'f 'f

datatype 'f val = Unit | StrVal string | CharVal char | NumVal int | RealVal 'f

definition run_call :: "'f float_ops \<Rightarrow> 'f call \<Rightarrow> Scanner \<Rightarrow> 'f val result" where
  "run_call F c s =
     (case c of
        CharLit ch \<Rightarrow> and_then (scan_char ch s) (\<lambda>_ s1. Done Unit s1)
      | Eof \<Rightarrow> and_then (scan_eof s) (\<lambda>_ s1. Done Unit s1)
      | Nl \<Rightarrow> and_then (scan_nl s) (\<lambda>_ s1. Done Unit s1)
      | IgnoreWs \<Rightarrow> and_then (scan_ignore_ws s) (\<lambda>_ s1. Done Unit s1)
      | ReadLine n \<Rightarrow> and_then (scan_Line n s) (\<lambda>v s1. Done (StrVal v) s1)
      | ReadStr n \<Rightarrow> and_then (scan_Str n s) (\<lambda>v s1. Done (StrVal v) s1)
      | ReadChar vs \<Rightarrow> and_then (scan_Char vs s) (\<lambda>v s1. Done (CharVal v) s1)
      | ReadNum T lo hi \<Rightarrow> and_then (scan_Num T lo hi s) (\<lambda>v s1. Done (NumVal v) s1)
      | ReadReal lo hi \<Rightarrow> and_then (scan_Num_real F lo hi s) (\<lambda>v s1. Done (RealVal v) s1))"

fun run_calls :: "'f float_ops \<Rightarrow> 'f call list \<Rightarrow> Scanner \<Rightarrow> 'f val list result" where
  "run_calls F [] s = Done [] s"
| "run_calls F (c # cs) s =
     and_then (run_call F c s) (\<lambda>v s1. and_then (run_calls F cs s1) (\<lambda>vs s2. Done (v # vs) s2))"

text \<open>An instance of the arithmetic parameter for closed examples: exact integer arithmetic,
  no infinities.\<close>

definition integer_arith :: "int float_ops" where
  "integer_arith =
     \<lparr>fl_of_int = (\<lambda>i. i), fl_add = (\<lambda>a b. a + b), fl_sub = (\<lambda>a b. a - b),
      fl_mul = (\<lambda>a b. a * b), fl_times_tenth = (\<lambda>a. a div 10), fl_isinf = (\<lambda>a. False),
      fl_less = (\<lambda>a b. a < b), fl_le = (\<lambda>a b. a \<le> b)\<rparr>"

section \<open>Random\<close>

text \<open>
  The generator is \<^verbatim>\<open>std::mt19937_64\<close>: its raw draws are 64-bit words, \<^verbatim>\<open>min()\<close> is 0 and
  \<^verbatim>\<open>max()\<close> is \<open>2^64 - 1\<close>. The draws are a parameter: the list of the values that the
  successive calls \<^verbatim>\<open>generator()\<close> return. A value of an integer type of \<open>w\<close> bits is a word of
  \<open>w\<close> bits, read with \<open>unat\<close> for an unsigned type and with \<open>sint\<close> for a signed one. A call
  of \<^verbatim>\<open>Random::operator()\<close> returns a value and the draws left, or fails \<^verbatim>\<open>oi_assert\<close>
  (exit code 3), or has not returned when the draws supplied are used up.
\<close>

datatype 'a sample = Sampled 'a "64 word list" | AssertionFailed | Exhausted

definition generator_range_len :: "64 word" where
  "generator_range_len = - 1 - 0"

text \<open>The \<^verbatim>\<open>for (;;)\<close> of the unsigned branch: draws at or above \<open>limit\<close> are discarded.\<close>

fun rejection_loop :: "64 word \<Rightarrow> 64 word \<Rightarrow> 64 word list \<Rightarrow> (64 word \<times> 64 word list) option" where
  "rejection_loop limit range_len [] = None"
| "rejection_loop limit range_len (g # gs) =
     (let val = g - 0
      in if val \<ge> limit then rejection_loop limit range_len gs
         else Some (val mod range_len, gs))"

text \<open>The branch \<^verbatim>\<open>std::is_unsigned_v<T>\<close>.\<close>

definition Random_unsigned :: "'a::len word \<Rightarrow> 'a word \<Rightarrow> 64 word list \<Rightarrow> 'a word sample" where
  "Random_unsigned min_val max_val draws =
     (if \<not> min_val \<le> max_val then AssertionFailed
      else
        let range_len = (ucast max_val :: 64 word) - ucast min_val + 1
        in if range_len = 0 then
             (case draws of [] \<Rightarrow> Exhausted | g # gs \<Rightarrow> Sampled (ucast g) gs)
           else
             let limit = generator_range_len - generator_range_len mod range_len
             in case rejection_loop limit range_len draws of
                  None \<Rightarrow> Exhausted
                | Some (val, gs) \<Rightarrow> Sampled (ucast val + min_val) gs)"

text \<open>The last branch, for a signed \<^verbatim>\<open>T\<close>: \<open>numeric_limits_min\<close> is
  \<^verbatim>\<open>static_cast<UT>(std::numeric_limits<T>::min())\<close>.\<close>

definition numeric_limits_min :: "'a::len word" where
  "numeric_limits_min = 2 ^ (LENGTH('a) - 1)"

definition Random_signed :: "'a::len word \<Rightarrow> 'a word \<Rightarrow> 64 word list \<Rightarrow> 'a word sample" where
  "Random_signed min_val max_val draws =
     (if \<not> sint min_val \<le> sint max_val then AssertionFailed
      else
        let umin = min_val - numeric_limits_min;
            umax = max_val - numeric_limits_min
        in case Random_unsigned umin umax draws of
             Sampled v gs \<Rightarrow> Sampled (v + numeric_limits_min) gs
           | AssertionFailed \<Rightarrow> AssertionFailed
           | Exhausted \<Rightarrow> Exhausted)"

section \<open>Notions of the specification\<close>

text \<open>The value of a run of decimal digits, by place value.\<close>

fun decimal_value :: "string \<Rightarrow> int" where
  "decimal_value [] = 0"
| "decimal_value (c # cs) = (of_char c - 48) * 10 ^ length cs + decimal_value cs"

section \<open>The scanner as a cursor into its input\<close>

text \<open>
  The items of a stream are its bytes followed by the \<^verbatim>\<open>EOF\<close> marker. A scanner over
  \<open>inp\<close> is at cursor \<open>n\<close> when \<^verbatim>\<open>getchar\<close> has returned the first \<open>n\<close> items and none of
  them is pushed back; the next item is then in \<^verbatim>\<open>next_char\<close> or still in the file.
\<close>

definition items :: "string \<Rightarrow> int list" where
  "items inp = map of_char inp @ [EOF]"

definition pos_after :: "string \<Rightarrow> nat \<Rightarrow> Pos" where
  "pos_after inp n = foldl (\<lambda>p ch. advance ch p) \<lparr>line = 1, pos = 1\<rparr> (take n (items inp))"

definition consumed :: "string \<Rightarrow> Scanner \<Rightarrow> nat" where
  "consumed inp s =
     length inp - length (file_bytes s) + (if eofed s then 1 else 0)
       - (case next_char s of None \<Rightarrow> 0 | Some c \<Rightarrow> if c = EOF then 0 else 1)"

definition cursor :: "string \<Rightarrow> Scanner \<Rightarrow> nat \<Rightarrow> bool" where
  "cursor inp s n \<longleftrightarrow>
     n \<le> Suc (length inp) \<and> (eofed s \<longleftrightarrow> n = Suc (length inp)) \<and>
     (case next_char s of
        None \<Rightarrow> file_bytes s = drop n inp \<and> prev_last_char_pos s = pos_after inp (n - 2)
      | Some c \<Rightarrow> n \<le> length inp \<and> c = items inp ! n \<and> file_bytes s = drop (Suc n) inp) \<and>
     next_char_pos s = pos_after inp n \<and> last_char_pos s = pos_after inp (n - 1)"

lemma pos_after_0: "pos_after inp 0 = \<lparr>line = 1, pos = 1\<rparr>"
  by (simp add: pos_after_def)

lemma pos_after_Suc:
  "n \<le> length inp \<Longrightarrow> pos_after inp (Suc n) = advance (items inp ! n) (pos_after inp n)"
proof -
  assume "n \<le> length inp"
  then have "n < length (items inp)" by (simp add: items_def)
  then have "take (Suc n) (items inp) = take n (items inp) @ [items inp ! n]"
    by (rule take_Suc_conv_app_nth)
  then show ?thesis by (simp add: pos_after_def)
qed

lemma items_nth_lt: "n < length inp \<Longrightarrow> items inp ! n = of_char (inp ! n)"
  by (simp add: items_def nth_append)

lemma items_nth_len: "items inp ! length inp = EOF"
  by (simp add: items_def nth_append)

lemma items_nth_eq_EOF: "n \<le> length inp \<Longrightarrow> items inp ! n = EOF \<longleftrightarrow> n = length inp"
  by (cases "n < length inp") (auto simp: items_nth_lt items_nth_len of_char_neq_EOF)

lemma cursor_new: "cursor inp (new_Scanner inp m l) 0"
  by (simp add: cursor_def new_Scanner_def pos_after_0)

lemma cursor_consumed: "cursor inp s n \<Longrightarrow> consumed inp s = n"
  by (auto simp: cursor_def consumed_def items_nth_eq_EOF split: option.splits if_splits)

definition conf :: "string \<Rightarrow> Mode \<Rightarrow> Lang \<Rightarrow> DelayedUnreadChars list \<Rightarrow> Scanner \<Rightarrow> nat \<Rightarrow> bool" where
  "conf inp m l d s n \<longleftrightarrow>
     cursor inp s n \<and> mode s = m \<and> lang s = l \<and> delayed_unread_chars s = d"

lemma conf_new: "conf inp m l [] (new_Scanner inp m l) 0"
  by (simp add: conf_def cursor_def new_Scanner_def pos_after_0)

lemma conf_consumed: "conf inp m l d s n \<Longrightarrow> consumed inp s = n"
  by (simp add: conf_def cursor_consumed)

lemma conf_last_char_pos: "conf inp m l d s n \<Longrightarrow> last_char_pos s = pos_after inp (n - 1)"
  by (simp add: conf_def cursor_def)

lemma conf_fields: "conf inp m l d s n \<Longrightarrow> mode s = m \<and> lang s = l \<and> delayed_unread_chars s = d"
  by (simp add: conf_def)

lemma getchar_conf:
  assumes "conf inp m l d s n" and "n \<le> length inp"
  shows "\<exists>s'. getchar s = (if n < length inp then Some (of_char (inp ! n)) else None, s')
            \<and> conf inp m l d s' (Suc n) \<and> next_char s' = None"
proof (cases "next_char s")
  case None
  show ?thesis
  proof (cases "n < length inp")
    case True
    then have "drop n inp = inp ! n # drop (Suc n) inp"
      by (simp add: Cons_nth_drop_Suc)
    with assms None True show ?thesis
      by (auto simp: conf_def cursor_def getchar_def getc_unlocked_def Let_def pos_after_Suc
          items_nth_lt of_char_neq_EOF)
  next
    case False
    with assms have "n = length inp" by simp
    with assms None show ?thesis
      by (auto simp: conf_def cursor_def getchar_def getc_unlocked_def Let_def pos_after_Suc
          items_nth_len)
  qed
next
  case (Some c)
  with assms show ?thesis
    by (auto simp: conf_def cursor_def getchar_def Let_def pos_after_Suc items_nth_lt
        items_nth_len of_char_neq_EOF items_nth_eq_EOF split: prod.splits)
qed

lemma getchar_conf_lt:
  assumes "conf inp m l d s n" and "n < length inp"
  obtains s' where "getchar s = (Some (of_char (inp ! n)), s')"
    and "conf inp m l d s' (Suc n)" and "next_char s' = None"
  using getchar_conf [OF assms(1), of] assms(2) by auto

lemma getchar_conf_end:
  assumes "conf inp m l d s (length inp)"
  obtains s' where "getchar s = (None, s')"
    and "conf inp m l d s' (Suc (length inp))" and "next_char s' = None"
  using getchar_conf [OF assms] by auto

lemma getchar_conf_eofed:
  assumes "conf inp m l d s (Suc (length inp))"
  shows "getchar s = (None, s) \<and> next_char s = None"
  using assms by (auto simp: conf_def cursor_def getchar_def split: option.splits)

lemma ungetchar_conf:
  assumes "conf inp m l d s (Suc n)" and "next_char s = None" and "ch = items inp ! n"
  obtains s' where "ungetchar ch s = Done () s'" and "conf inp m l d s' n"
  using assms by (auto simp: conf_def cursor_def ungetchar_def)

lemma pos_after_no_newline:
  "n \<le> length inp \<Longrightarrow> \<forall>i<n. (of_char (inp ! i) :: int) \<noteq> 10 \<Longrightarrow>
     pos_after inp n = \<lparr>line = 1, pos = Suc n\<rparr>"
proof (induction n)
  case 0
  then show ?case by (simp add: pos_after_0)
next
  case (Suc n)
  then show ?case by (simp add: pos_after_Suc items_nth_lt advance_def)
qed

subsection \<open>The loops, step by step along the input\<close>

lemma conf_update_delayed:
  "conf inp m l d s n \<Longrightarrow> conf inp m l d' (s\<lparr>delayed_unread_chars := d'\<rparr>) n"
  by (auto simp: conf_def cursor_def split: option.splits)

lemma read_delayed_unread_chars_empty:
  assumes "conf inp m l [] s n"
  obtains s' where "read_delayed_unread_chars s = Done () s'" and "conf inp m l [] s' n"
proof -
  from assms have "read_delayed_unread_chars s = Done () (s\<lparr>delayed_unread_chars := []\<rparr>)"
    by (simp add: read_delayed_unread_chars_def conf_def and_then_def)
  with conf_update_delayed [OF assms, of "[]"] that show ?thesis by blast
qed

lemma ignore_ws_loop_stay:
  assumes "conf inp m l d s n" and "n \<le> length inp"
    and "n < length inp \<Longrightarrow> of_char (inp ! n) = (10::int) \<or> \<not> isspace (of_char (inp ! n))"
  obtains s' where "ignore_ws_loop s = Done () s'" and "conf inp m l d s' n"
proof (cases "n < length inp")
  case True
  from getchar_conf_lt [OF assms(1) True] obtain s1 where
    g: "getchar s = (Some (of_char (inp ! n)), s1)" "conf inp m l d s1 (Suc n)" "next_char s1 = None"
    by blast
  from ungetchar_conf [OF g(2) g(3), of "of_char (inp ! n)"] True obtain s2 where
    u: "ungetchar (of_char (inp ! n)) s1 = Done () s2" "conf inp m l d s2 n"
    by (auto simp: items_nth_lt)
  from g u assms(3) [OF True] have "ignore_ws_loop s = Done () s2"
    by (subst ignore_ws_loop.simps) auto
  with u that show ?thesis by blast
next
  case False
  with assms have n: "n = length inp" by simp
  from getchar_conf_end assms(1) n obtain s1 where
    g: "getchar s = (None, s1)" "conf inp m l d s1 (Suc (length inp))" "next_char s1 = None"
    by blast
  from ungetchar_conf [OF g(2) g(3), of EOF] obtain s2 where
    u: "ungetchar EOF s1 = Done () s2" "conf inp m l d s2 (length inp)"
    by (auto simp: items_nth_len)
  from g u have "ignore_ws_loop s = Done () s2"
    by (subst ignore_ws_loop.simps) auto
  with u n that show ?thesis by blast
qed

lemma Str_loop_too_long:
  assumes "conf inp m l d s n" and "length var + j = max_size" and "n + j \<le> length inp"
    and "\<forall>i<j. \<not> isspace (of_char (inp ! (n + i)))"
  shows "\<exists>s'. Str_loop max_size var ch s = Failed [too_long_string l] s' \<and> conf inp m l d s' (n + j)"
  using assms
proof (induction j arbitrary: var ch s n)
  case 0
  then show ?case
    by (subst Str_loop.simps) (auto simp: conf_def)
next
  case (Suc j)
  from Suc.prems have n: "n < length inp" by simp
  from getchar_conf_lt [OF Suc.prems(1) n] obtain s1 where
    g: "getchar s = (Some (of_char (inp ! n)), s1)" "conf inp m l d s1 (Suc n)"
    by blast
  from Suc.prems(4) have ns: "\<not> isspace (of_char (inp ! n))" by force
  from Suc.prems(4) have rest: "\<forall>i<j. \<not> isspace (of_char (inp ! (Suc n + i)))" by force
  from Suc.prems have len: "length (var @ [char_of ch]) + j = max_size" "Suc n + j \<le> length inp"
    by simp_all
  from Suc.IH [OF g(2) len rest, of "of_char (inp ! n)"] obtain s' where
    "Str_loop max_size (var @ [char_of ch]) (of_char (inp ! n)) s1 = Failed [too_long_string l] s'"
    "conf inp m l d s' (Suc n + j)" by blast
  with g ns len show ?case
    by (subst Str_loop.simps) auto
qed

lemma Str_loop_ok:
  assumes "conf inp m l d s n" and "length var + j < max_size" and "n + j \<le> length inp"
    and "\<forall>i<j. \<not> isspace (of_char (inp ! (n + i)))"
    and "n + j < length inp \<Longrightarrow> isspace (of_char (inp ! (n + j)))"
  shows "\<exists>s'. Str_loop max_size var ch s = Done (var @ char_of ch # take j (drop n inp)) s'
            \<and> conf inp m l d s' (n + j)"
  using assms
proof (induction j arbitrary: var ch s n)
  case 0
  show ?case
  proof (cases "n < length inp")
    case True
    from getchar_conf_lt [OF "0.prems"(1) True] obtain s1 where
      g: "getchar s = (Some (of_char (inp ! n)), s1)" "conf inp m l d s1 (Suc n)" "next_char s1 = None"
      by blast
    from ungetchar_conf [OF g(2) g(3), of "of_char (inp ! n)"] True obtain s2 where
      u: "ungetchar (of_char (inp ! n)) s1 = Done () s2" "conf inp m l d s2 n"
      by (auto simp: items_nth_lt)
    from "0.prems" True have "isspace (of_char (inp ! n))" by simp
    with g u "0.prems"(2) show ?thesis
      by (subst Str_loop.simps) (auto simp: and_then_def)
  next
    case False
    with "0.prems" have n: "n = length inp" by simp
    from getchar_conf_end "0.prems"(1) n obtain s1 where
      g: "getchar s = (None, s1)" "conf inp m l d s1 (Suc (length inp))" "next_char s1 = None"
      by blast
    from ungetchar_conf [OF g(2) g(3), of EOF] obtain s2 where
      u: "ungetchar EOF s1 = Done () s2" "conf inp m l d s2 (length inp)"
      by (auto simp: items_nth_len)
    with g n "0.prems"(2) show ?thesis
      by (subst Str_loop.simps) (auto simp: and_then_def)
  qed
next
  case (Suc j)
  from Suc.prems have n: "n < length inp" by simp
  from getchar_conf_lt [OF Suc.prems(1) n] obtain s1 where
    g: "getchar s = (Some (of_char (inp ! n)), s1)" "conf inp m l d s1 (Suc n)"
    by blast
  from Suc.prems(4) have ns: "\<not> isspace (of_char (inp ! n))" by force
  from Suc.prems(4) have rest: "\<forall>i<j. \<not> isspace (of_char (inp ! (Suc n + i)))" by force
  from Suc.prems have len: "length (var @ [char_of ch]) + j < max_size" "Suc n + j \<le> length inp"
    by simp_all
  from Suc.prems(5) have stop: "Suc n + j < length inp \<Longrightarrow> isspace (of_char (inp ! (Suc n + j)))"
    by simp
  from Suc.IH [OF g(2) len rest stop, of "of_char (inp ! n)"] obtain s' where
    "Str_loop max_size (var @ [char_of ch]) (of_char (inp ! n)) s1 =
       Done ((var @ [char_of ch]) @ char_of (of_char (inp ! n) :: int) # take j (drop (Suc n) inp)) s'"
    "conf inp m l d s' (Suc n + j)" by blast
  moreover from n have "take (Suc j) (drop n inp) = inp ! n # take j (drop (Suc n) inp)"
    by (simp add: Cons_nth_drop_Suc [symmetric])
  ultimately show ?case using g ns len
    by (subst Str_loop.simps) auto
qed

subsection \<open>The digit loop\<close>

definition with_sign :: "bool \<Rightarrow> int \<Rightarrow> int" where
  "with_sign is_minus a = (if is_minus then - a else a)"

lemma decimal_value_nonneg: "\<forall>c\<in>set cs. isdigit (of_char c) \<Longrightarrow> 0 \<le> decimal_value cs"
  by (induction cs) (auto simp: isdigit_def)

lemma decimal_value_snoc:
  "decimal_value (cs @ [c]) = decimal_value cs * 10 + (of_char c - 48)"
  by (induction cs) (auto simp: algebra_simps)

lemma T_min_le_0: "T_min T \<le> 0"
  by (cases T) auto

lemma T_max_ge_0: "0 \<le> T_max T"
  by (cases T) auto

lemma fits_with_sign:
  "fits T (with_sign is_minus X) \<Longrightarrow> 0 \<le> x \<Longrightarrow> x \<le> X \<Longrightarrow> fits T (with_sign is_minus x)"
  using T_min_le_0 [of T] T_max_ge_0 [of T] by (auto simp: fits_def with_sign_def)

lemma not_fits_with_sign:
  "\<not> fits T (with_sign is_minus x) \<Longrightarrow> 0 \<le> x \<Longrightarrow> x \<le> X \<Longrightarrow> \<not> fits T (with_sign is_minus X)"
  using fits_with_sign by blast

lemma take_Suc_drop:
  "n < length inp \<Longrightarrow> take (Suc j) (drop n inp) = inp ! n # take j (drop (Suc n) inp)"
  by (simp add: Cons_nth_drop_Suc [symmetric])

lemma with_sign_mult: "with_sign b a * 10 = with_sign b (a * 10)"
  by (simp add: with_sign_def)

lemma with_sign_add: "\<not> b \<Longrightarrow> with_sign b x + d = with_sign b (x + d)"
  by (simp add: with_sign_def)

lemma with_sign_sub: "b \<Longrightarrow> with_sign b x - d = with_sign b (x + d)"
  by (simp add: with_sign_def)

text \<open>One round of the loop at a digit that overflows nowhere.\<close>

lemma digits_loop_step:
  assumes g: "getchar s = (Some ch, s1)" and dig: "isdigit ch" and a: "0 \<le> a"
    and f: "fits T (with_sign is_minus (a * 10 + (ch - 48)))"
  shows "digits_loop T is_minus (with_sign is_minus a) s =
           digits_loop T is_minus (with_sign is_minus (a * 10 + (ch - 48))) s1"
proof -
  from dig have d: "0 \<le> ch - 48" by (simp add: isdigit_def)
  from fits_with_sign [OF f, of "a * 10"] a d have f1: "fits T (with_sign is_minus (a * 10))"
    by simp
  show ?thesis
  proof (cases is_minus)
    case True
    with f f1 have "fits T (with_sign True (a * 10))"
      and "fits T (with_sign True (a * 10 + (ch - 48)))" by simp_all
    with g dig True show ?thesis
      by (subst digits_loop.simps)
        (simp add: builtin_mul_overflow_def builtin_sub_overflow_def with_sign_mult with_sign_sub)
  next
    case False
    with f f1 have "fits T (with_sign False (a * 10))"
      and "fits T (with_sign False (a * 10 + (ch - 48)))" by simp_all
    with g dig False show ?thesis
      by (subst digits_loop.simps)
        (simp add: builtin_mul_overflow_def builtin_add_overflow_def with_sign_mult with_sign_add)
  qed
qed

text \<open>One round of the loop at the digit where the exact value leaves the type.\<close>

lemma digits_loop_step_overflow:
  assumes g: "getchar s = (Some ch, s1)" and dig: "isdigit ch" and a: "0 \<le> a"
    and f: "\<not> fits T (with_sign is_minus (a * 10 + (ch - 48)))"
  shows "digits_loop T is_minus (with_sign is_minus a) s =
           Failed [integer_value_out_of_range (lang s1)] s1"
proof (cases is_minus)
  case True
  with f have "\<not> fits T (with_sign True (a * 10 + (ch - 48)))" by simp
  with g dig True show ?thesis
    by (subst digits_loop.simps)
      (simp add: builtin_mul_overflow_def builtin_sub_overflow_def with_sign_mult with_sign_sub)
next
  case False
  with f have "\<not> fits T (with_sign False (a * 10 + (ch - 48)))" by simp
  with g dig False show ?thesis
    by (subst digits_loop.simps)
      (simp add: builtin_mul_overflow_def builtin_add_overflow_def with_sign_mult with_sign_add)
qed

lemma digits_loop_ok:
  assumes "conf inp m l d s n" and "n + j \<le> length inp"
    and "\<forall>i<j. isdigit (of_char (inp ! (n + i)))"
    and "n + j < length inp \<Longrightarrow> \<not> isdigit (of_char (inp ! (n + j)))"
    and "0 \<le> a"
    and "fits T (with_sign is_minus (a * 10 ^ j + decimal_value (take j (drop n inp))))"
  shows "\<exists>s'. digits_loop T is_minus (with_sign is_minus a) s =
              Done (with_sign is_minus (a * 10 ^ j + decimal_value (take j (drop n inp)))) s'
            \<and> conf inp m l d s' (n + j)"
  using assms
proof (induction j arbitrary: a s n)
  case 0
  show ?case
  proof (cases "n < length inp")
    case True
    from getchar_conf_lt [OF "0.prems"(1) True] obtain s1 where
      g: "getchar s = (Some (of_char (inp ! n)), s1)" "conf inp m l d s1 (Suc n)" "next_char s1 = None"
      by blast
    from ungetchar_conf [OF g(2) g(3), of "of_char (inp ! n)"] True obtain s2 where
      u: "ungetchar (of_char (inp ! n)) s1 = Done () s2" "conf inp m l d s2 n"
      by (auto simp: items_nth_lt)
    from "0.prems" True have "\<not> isdigit (of_char (inp ! n))" by simp
    with g u show ?thesis
      by (subst digits_loop.simps) (auto simp: and_then_def)
  next
    case False
    with "0.prems" have n: "n = length inp" by simp
    from getchar_conf_end "0.prems"(1) n obtain s1 where
      g: "getchar s = (None, s1)" "conf inp m l d s1 (Suc (length inp))" "next_char s1 = None"
      by blast
    from ungetchar_conf [OF g(2) g(3), of EOF] obtain s2 where
      u: "ungetchar EOF s1 = Done () s2" "conf inp m l d s2 (length inp)"
      by (auto simp: items_nth_len)
    with g n show ?thesis
      by (subst digits_loop.simps) (auto simp: and_then_def)
  qed
next
  case (Suc j)
  let ?c = "of_char (inp ! n) :: int"
  let ?rest = "take j (drop (Suc n) inp)"
  from Suc.prems have n: "n < length inp" by simp
  from getchar_conf_lt [OF Suc.prems(1) n] obtain s1 where
    g: "getchar s = (Some ?c, s1)" "conf inp m l d s1 (Suc n)"
    by blast
  from Suc.prems(3) have dig: "isdigit ?c" by force
  then have d: "0 \<le> ?c - 48" by (simp add: isdigit_def)
  from Suc.prems(3) have rest: "\<forall>i<j. isdigit (of_char (inp ! (Suc n + i)))" by force
  from Suc.prems(2) have len: "Suc n + j \<le> length inp" by simp
  from Suc.prems(4) have stop: "Suc n + j < length inp \<Longrightarrow> \<not> isdigit (of_char (inp ! (Suc n + j)))"
    by simp
  from len have lrest: "length ?rest = j" by simp
  from rest len have "\<forall>c\<in>set ?rest. isdigit (of_char c)"
    by (auto simp: in_set_conv_nth)
  then have nn: "0 \<le> decimal_value ?rest" by (rule decimal_value_nonneg)
  have fin: "a * 10 ^ Suc j + decimal_value (take (Suc j) (drop n inp)) =
               (a * 10 + (?c - 48)) * 10 ^ j + decimal_value ?rest"
    by (simp only: take_Suc_drop [OF n] decimal_value.simps lrest) (simp add: algebra_simps)
  have v1: "0 \<le> a * 10 + (?c - 48)" using Suc.prems(5) d by simp
  have "(a * 10 + (?c - 48)) * 1 \<le> (a * 10 + (?c - 48)) * 10 ^ j"
    by (rule mult_left_mono [OF _ v1]) simp
  with nn have up: "a * 10 + (?c - 48) \<le> (a * 10 + (?c - 48)) * 10 ^ j + decimal_value ?rest"
    by simp
  from Suc.prems(6) fin
  have bound: "fits T (with_sign is_minus ((a * 10 + (?c - 48)) * 10 ^ j + decimal_value ?rest))"
    by simp
  from fits_with_sign [OF bound v1 up]
  have f: "fits T (with_sign is_minus (a * 10 + (?c - 48)))" .
  from Suc.IH [OF g(2) len rest stop v1 bound] obtain s' where
    "digits_loop T is_minus (with_sign is_minus (a * 10 + (?c - 48))) s1 =
       Done (with_sign is_minus ((a * 10 + (?c - 48)) * 10 ^ j + decimal_value ?rest)) s'"
    "conf inp m l d s' (Suc n + j)" by blast
  with digits_loop_step [OF g(1) dig Suc.prems(5) f] fin show ?case by simp
qed

lemma digits_loop_overflow:
  assumes "conf inp m l d s n" and "n + j < length inp"
    and "\<forall>i\<le>j. isdigit (of_char (inp ! (n + i)))"
    and "0 \<le> a"
    and "fits T (with_sign is_minus (a * 10 ^ j + decimal_value (take j (drop n inp))))"
    and "\<not> fits T (with_sign is_minus (a * 10 ^ Suc j + decimal_value (take (Suc j) (drop n inp))))"
  shows "\<exists>s'. digits_loop T is_minus (with_sign is_minus a) s = Failed [integer_value_out_of_range l] s'
            \<and> conf inp m l d s' (Suc (n + j))"
  using assms
proof (induction j arbitrary: a s n)
  case 0
  let ?c = "of_char (inp ! n) :: int"
  from "0.prems" have n: "n < length inp" by simp
  from getchar_conf_lt [OF "0.prems"(1) n] obtain s1 where
    g: "getchar s = (Some ?c, s1)" "conf inp m l d s1 (Suc n)"
    by blast
  from "0.prems"(3) have dig: "isdigit ?c" by force
  from "0.prems"(6) have "\<not> fits T (with_sign is_minus (a * 10 + (?c - 48)))"
    by (simp add: take_Suc_drop [OF n])
  from digits_loop_step_overflow [OF g(1) dig "0.prems"(4) this] g(2) show ?case
    by (simp add: conf_def)
next
  case (Suc j)
  let ?c = "of_char (inp ! n) :: int"
  let ?rest = "take j (drop (Suc n) inp)"
  let ?rest' = "take (Suc j) (drop (Suc n) inp)"
  from Suc.prems have n: "n < length inp" by simp
  from getchar_conf_lt [OF Suc.prems(1) n] obtain s1 where
    g: "getchar s = (Some ?c, s1)" "conf inp m l d s1 (Suc n)"
    by blast
  from Suc.prems(3) have dig: "isdigit ?c" by force
  then have d: "0 \<le> ?c - 48" by (simp add: isdigit_def)
  from Suc.prems(3) have rest: "\<forall>i\<le>j. isdigit (of_char (inp ! (Suc n + i)))" by force
  from Suc.prems(2) have len: "Suc n + j < length inp" by simp
  then have lrest: "length ?rest = j" "length ?rest' = Suc j" by simp_all
  from rest len have "\<forall>c\<in>set ?rest. isdigit (of_char c)"
    by (auto simp: in_set_conv_nth)
  then have nn: "0 \<le> decimal_value ?rest" by (rule decimal_value_nonneg)
  have fin: "a * 10 ^ Suc j + decimal_value (take (Suc j) (drop n inp)) =
               (a * 10 + (?c - 48)) * 10 ^ j + decimal_value ?rest"
    by (simp only: take_Suc_drop [OF n] decimal_value.simps lrest) (simp add: algebra_simps)
  have fin': "a * 10 ^ Suc (Suc j) + decimal_value (take (Suc (Suc j)) (drop n inp)) =
               (a * 10 + (?c - 48)) * 10 ^ Suc j + decimal_value ?rest'"
    by (simp only: take_Suc_drop [OF n] decimal_value.simps lrest) (simp add: algebra_simps)
  have v1: "0 \<le> a * 10 + (?c - 48)" using Suc.prems(4) d by simp
  have "(a * 10 + (?c - 48)) * 1 \<le> (a * 10 + (?c - 48)) * 10 ^ j"
    by (rule mult_left_mono [OF _ v1]) simp
  with nn have up: "a * 10 + (?c - 48) \<le> (a * 10 + (?c - 48)) * 10 ^ j + decimal_value ?rest"
    by simp
  from Suc.prems(5) fin
  have b1: "fits T (with_sign is_minus ((a * 10 + (?c - 48)) * 10 ^ j + decimal_value ?rest))"
    by simp
  from Suc.prems(6) fin'
  have b2: "\<not> fits T (with_sign is_minus ((a * 10 + (?c - 48)) * 10 ^ Suc j + decimal_value ?rest'))"
    by simp
  from fits_with_sign [OF b1 v1 up]
  have f: "fits T (with_sign is_minus (a * 10 + (?c - 48)))" .
  from Suc.IH [OF g(2) len rest v1 b1 b2] obtain s' where
    "digits_loop T is_minus (with_sign is_minus (a * 10 + (?c - 48))) s1
       = Failed [integer_value_out_of_range l] s'"
    "conf inp m l d s' (Suc (Suc n + j))" by blast
  with digits_loop_step [OF g(1) dig Suc.prems(4) f] show ?case by simp
qed

subsection \<open>Reading an integer: the sign and the first digit\<close>

definition sign_text :: "bool \<Rightarrow> string" where
  "sign_text is_minus = (if is_minus then ''-'' else [])"

lemma isdigit_not_isspace: "isdigit ch \<Longrightarrow> \<not> isspace ch \<and> ch \<noteq> 45 \<and> ch \<noteq> 10"
  by (auto simp: isdigit_def isspace_def)

lemma scan_integer_start:
  assumes c: "conf inp m l d s n" and inp: "inp = before @ sign_text is_minus @ c0 # after"
    and n: "n = length before" and dig: "isdigit (of_char c0)"
    and sg: "is_minus \<Longrightarrow> \<not> is_unsigned T"
  obtains s1 where "scan_integer T s = digits_loop T is_minus (with_sign is_minus (of_char c0 - 48)) s1"
    and "conf inp m l d s1 (Suc (n + length (sign_text is_minus)))"
proof (cases is_minus)
  case False
  with inp n have n0: "n < length inp" and c0: "inp ! n = c0"
    by (simp_all add: sign_text_def nth_append)
  from getchar_conf_lt [OF c n0] c0 obtain s1 where
    g: "getchar s = (Some (of_char c0), s1)" "conf inp m l d s1 (Suc n)"
    by auto
  from dig g have "scan_integer T s = digits_loop T False (with_sign False (of_char c0 - 48)) s1"
    by (auto simp: scan_integer_def first_digit_def isdigit_def with_sign_def)
  with g False that show ?thesis by (simp add: sign_text_def)
next
  case True
  with inp n have n0: "n < length inp" and m0: "inp ! n = CHR ''-''"
    and n1: "Suc n < length inp" and c0: "inp ! Suc n = c0"
    by (simp_all add: sign_text_def nth_append)
  from getchar_conf_lt [OF c n0] m0 obtain s1 where
    g: "getchar s = (Some 45, s1)" "conf inp m l d s1 (Suc n)"
    by auto
  from getchar_conf_lt [OF g(2) n1] c0 obtain s2 where
    g2: "getchar s1 = (Some (of_char c0), s2)" "conf inp m l d s2 (Suc (Suc n))"
    by auto
  from dig g g2 sg True
  have "scan_integer T s = digits_loop T True (with_sign True (of_char c0 - 48)) s2"
    by (auto simp: scan_integer_def first_digit_def isdigit_def with_sign_def)
  with g2 True that show ?thesis by (simp add: sign_text_def)
qed

lemma fits_convex: "fits T lo \<Longrightarrow> fits T hi \<Longrightarrow> lo \<le> v \<Longrightarrow> v \<le> hi \<Longrightarrow> fits T v"
  by (simp add: fits_def)

lemma error_text:
  "error cv s msg =
     do_error cv (mode s)
       ((case lang s of EN \<Rightarrow> ''Line '' | PL \<Rightarrow> ''Wiersz '') # show_nat (line (last_char_pos s))
        # (case lang s of EN \<Rightarrow> '', position '' | PL \<Rightarrow> '', pozycja '')
        # show_nat (pos (last_char_pos s)) # '': '' # msg)"
  by (cases "lang s") (simp_all add: error_def)

subsection \<open>Every operation keeps the scanner a cursor into its input\<close>

text \<open>Right after \<^verbatim>\<open>getchar\<close>: the item \<open>ch\<close> just obtained is the last one before the cursor and
  nothing is pushed back.\<close>

definition fresh :: "string \<Rightarrow> Mode \<Rightarrow> Lang \<Rightarrow> DelayedUnreadChars list \<Rightarrow> Scanner \<Rightarrow> int \<Rightarrow> bool" where
  "fresh inp m l d s ch \<longleftrightarrow>
     (\<exists>k. conf inp m l d s (Suc k) \<and> next_char s = None \<and> items inp ! k = ch)"

text \<open>A result whose scanner, if any, is still a cursor into the same input.\<close>

definition res_conf :: "string \<Rightarrow> Mode \<Rightarrow> Lang \<Rightarrow> 'a result \<Rightarrow> bool" where
  "res_conf inp m l r \<longleftrightarrow>
     (case r of
        Done v s \<Rightarrow> \<exists>d n. conf inp m l d s n
      | Failed msg s \<Rightarrow> \<exists>d n. conf inp m l d s n
      | Crashed \<Rightarrow> True)"

lemma res_conf_Done: "conf inp m l d s n \<Longrightarrow> res_conf inp m l (Done v s)"
  by (auto simp: res_conf_def)

lemma res_conf_Failed: "conf inp m l d s n \<Longrightarrow> res_conf inp m l (Failed msg s)"
  by (auto simp: res_conf_def)

lemma res_conf_Crashed: "res_conf inp m l Crashed"
  by (simp add: res_conf_def)

lemma res_conf_and_then:
  assumes "res_conf inp m l r"
    and "\<And>v s d n. conf inp m l d s n \<Longrightarrow> res_conf inp m l (f v s)"
  shows "res_conf inp m l (and_then r f)"
  using assms by (cases r) (auto simp: and_then_def res_conf_def)

lemma conf_le: "conf inp m l d s n \<Longrightarrow> n \<le> Suc (length inp)"
  by (simp add: conf_def cursor_def)

lemma getchar_fresh:
  assumes "conf inp m l d s n" and "getchar s = (r, s1)"
  shows "fresh inp m l d s1 (case r of Some ch \<Rightarrow> ch | None \<Rightarrow> EOF)"
proof (cases "n \<le> length inp")
  case True
  from getchar_conf [OF assms(1) True] assms(2) True show ?thesis
    by (auto simp: fresh_def items_nth_lt items_nth_len split: if_splits intro!: exI [of _ n])
next
  case False
  with conf_le [OF assms(1)] have n: "n = Suc (length inp)" by simp
  with getchar_conf_eofed assms show ?thesis
    by (fastforce simp: fresh_def items_nth_len)
qed

lemma fresh_conf: "fresh inp m l d s ch \<Longrightarrow> \<exists>n. conf inp m l d s n"
  by (auto simp: fresh_def)

lemma fresh_Failed: "fresh inp m l d s ch \<Longrightarrow> res_conf inp m l (Failed msg s)"
  by (auto simp: fresh_def intro: res_conf_Failed)

lemma fresh_Done: "fresh inp m l d s ch \<Longrightarrow> res_conf inp m l (Done v s)"
  by (auto simp: fresh_def intro: res_conf_Done)

lemma ungetchar_fresh:
  assumes "fresh inp m l d s ch"
  shows "\<exists>s' n. ungetchar ch s = Done () s' \<and> conf inp m l d s' n"
  using assms ungetchar_conf unfolding fresh_def by metis

lemma ungetchar_fresh_res:
  assumes "fresh inp m l d s ch"
  shows "res_conf inp m l (and_then (ungetchar ch s) (\<lambda>_ s2. Done v s2))"
  using ungetchar_fresh [OF assms] by (auto simp: and_then_def intro: res_conf_Done)

lemma ungetchar_fresh_res':
  assumes "fresh inp m l d s ch"
  shows "res_conf inp m l (ungetchar ch s)"
  using ungetchar_fresh [OF assms] by (auto intro: res_conf_Done)

lemma do_read_char_fresh:
  assumes "conf inp m l d s n"
  shows "(\<exists>ch s1. do_read_char descr s = Done ch s1 \<and> fresh inp m l d s1 ch)
       \<or> (\<exists>msg s1. do_read_char descr s = Failed msg s1 \<and> fresh inp m l d s1 EOF)"
proof -
  obtain r s1 where g: "getchar s = (r, s1)" by (cases "getchar s")
  from getchar_fresh [OF assms g] g show ?thesis
    by (cases r) (auto simp: do_read_char_def)
qed

lemma unexpected_char_error_res:
  "fresh inp m l d s c \<Longrightarrow> res_conf inp m l (unexpected_char_error ch descr s)"
  by (auto simp: unexpected_char_error_def intro: fresh_Failed)

lemma read_newline_loop_res:
  "conf inp m l d s n \<Longrightarrow>
     (\<exists>s' n'. read_newline_loop s = Done () s' \<and> conf inp m l d s' n')
   \<or> (\<exists>msg s' n'. read_newline_loop s = Failed msg s' \<and> conf inp m l d s' n')"
proof (induction s arbitrary: n rule: read_newline_loop.induct)
  case (1 s)
  from do_read_char_fresh [OF "1.prems", of "[quote, backslash, CHR ''n'', quote]"]
  show ?case
  proof (elim disjE exE conjE)
    fix ch s1
    assume d: "do_read_char [quote, backslash, CHR ''n'', quote] s = Done ch s1"
      and f: "fresh inp m l d s1 ch"
    from f obtain n1 where c1: "conf inp m l d s1 n1" by (auto dest: fresh_conf)
    show ?thesis
    proof (cases "ch = 10")
      case True
      with d have "read_newline_loop s = Done () s1"
        by (subst read_newline_loop.simps) simp
      with c1 show ?thesis by auto
    next
      case False
      show ?thesis
      proof (cases "isspace ch")
        case True
        from d False True have "read_newline_loop s = read_newline_loop s1"
          by (subst read_newline_loop.simps) simp
        with "1.IH" [OF d False True c1] show ?thesis by simp
      next
        case ns: False
        with d False have "\<exists>msg. read_newline_loop s = Failed msg s1"
          by (subst read_newline_loop.simps) (simp add: unexpected_char_error_def)
        with c1 show ?thesis by auto
      qed
    qed
  next
    fix msg s1
    assume d: "do_read_char [quote, backslash, CHR ''n'', quote] s = Failed msg s1"
      and f: "fresh inp m l d s1 EOF"
    from f obtain n1 where c1: "conf inp m l d s1 n1" by (auto dest: fresh_conf)
    from d have "read_newline_loop s = Failed msg s1"
      by (subst read_newline_loop.simps) simp
    with c1 show ?thesis by auto
  qed
qed

lemma read_delayed_res:
  "conf inp m l d s n \<Longrightarrow>
     (\<exists>s' n'. read_delayed ds s = Done () s' \<and> conf inp m l d s' n')
   \<or> (\<exists>msg s' n'. read_delayed ds s = Failed msg s' \<and> conf inp m l d s' n')
   \<or> read_delayed ds s = Crashed"
proof (induction ds arbitrary: s n)
  case Nil
  then show ?case by auto
next
  case (Cons x ds)
  show ?case
  proof (cases "m = TestInput")
    case True
    with Cons.prems show ?thesis
      by (cases x) (auto simp: conf_def)
  next
    case False
    with Cons.prems have md: "mode s \<noteq> TestInput" by (simp add: conf_def)
    show ?thesis
    proof (cases x)
      case WHITESPACE
      from do_read_char_fresh [OF Cons.prems, of "[quote, CHR '' '', quote]"]
      show ?thesis
      proof (elim disjE exE conjE)
        fix ch s1
        assume d: "do_read_char [quote, CHR '' '', quote] s = Done ch s1"
          and f: "fresh inp m l d s1 ch"
        from f obtain n1 where c1: "conf inp m l d s1 n1" by (auto dest: fresh_conf)
        from Cons.IH [OF c1] d c1 md WHITESPACE show ?thesis
          by (cases "mode s") (auto simp: unexpected_char_error_def)
      next
        fix msg s1
        assume d: "do_read_char [quote, CHR '' '', quote] s = Failed msg s1"
          and f: "fresh inp m l d s1 EOF"
        from f obtain n1 where c1: "conf inp m l d s1 n1" by (auto dest: fresh_conf)
        with d md WHITESPACE show ?thesis
          by (cases "mode s") auto
      qed
    next
      case NEWLINE
      from read_newline_loop_res [OF Cons.prems] show ?thesis
      proof (elim disjE exE conjE)
        fix s' n'
        assume r: "read_newline_loop s = Done () s'" and c1: "conf inp m l d s' n'"
        from Cons.IH [OF c1] r md NEWLINE show ?thesis
          by (cases "mode s") (auto simp: and_then_def)
      next
        fix msg s' n'
        assume r: "read_newline_loop s = Failed msg s'" and c1: "conf inp m l d s' n'"
        with md NEWLINE show ?thesis
          by (cases "mode s") (auto simp: and_then_def)
      qed
    qed
  qed
qed

lemma read_delayed_unread_chars_res:
  assumes "conf inp m l d s n"
  shows "(\<exists>s' n'. read_delayed_unread_chars s = Done () s' \<and> conf inp m l [] s' n')
   \<or> (\<exists>msg s' n'. read_delayed_unread_chars s = Failed msg s' \<and> conf inp m l d s' n')
   \<or> read_delayed_unread_chars s = Crashed"
  using read_delayed_res [OF assms, of "delayed_unread_chars s"]
  by (auto simp: read_delayed_unread_chars_def and_then_def dest: conf_update_delayed [where d' = "[]"])

lemma read_delayed_unread_chars_res_conf:
  assumes "conf inp m l d s n"
    and "\<And>s1 n1. conf inp m l [] s1 n1 \<Longrightarrow> res_conf inp m l (f () s1)"
  shows "res_conf inp m l (and_then (read_delayed_unread_chars s) f)"
  using read_delayed_unread_chars_res [OF assms(1)] assms(2)
  by (auto simp: and_then_def intro: res_conf_Failed res_conf_Crashed)

lemma ignore_ws_loop_res:
  "conf inp m l d s n \<Longrightarrow> \<exists>s' n'. ignore_ws_loop s = Done () s' \<and> conf inp m l d s' n'"
proof (induction s arbitrary: n rule: ignore_ws_loop.induct)
  case (1 s)
  obtain r s1 where g: "getchar s = (r, s1)" by (cases "getchar s")
  note f = getchar_fresh [OF "1.prems" g]
  show ?case
  proof (cases r)
    case None
    with g have "ignore_ws_loop s = ungetchar EOF s1"
      by (subst ignore_ws_loop.simps) simp
    with ungetchar_fresh [of inp m l d s1 EOF] f None show ?thesis by simp
  next
    case (Some ch)
    show ?thesis
    proof (cases "ch = 10 \<or> \<not> isspace ch")
      case True
      with g Some have "ignore_ws_loop s = ungetchar ch s1"
        by (subst ignore_ws_loop.simps) auto
      with ungetchar_fresh [of inp m l d s1 ch] f Some show ?thesis by simp
    next
      case False
      with g Some have eq: "ignore_ws_loop s = ignore_ws_loop s1"
        by (subst ignore_ws_loop.simps) auto
      from f Some obtain n1 where c1: "conf inp m l d s1 n1" by (auto dest: fresh_conf)
      from "1.IH" [OF g [symmetric] Some False c1] eq show ?thesis by simp
    qed
  qed
qed

lemma scan_ignore_ws_res:
  assumes c: "conf inp m l d s n"
  shows "res_conf inp m l (scan_ignore_ws s)"
  unfolding scan_ignore_ws_def
proof (rule read_delayed_unread_chars_res_conf [OF c])
  fix s1 n1
  assume "conf inp m l [] s1 n1"
  from ignore_ws_loop_res [OF this] show "res_conf inp m l (ignore_ws_loop s1)"
    by (auto intro: res_conf_Done)
qed

lemma ignore_ws_if_lenient_res: "conf inp m l d s n \<Longrightarrow> res_conf inp m l (ignore_ws_if_lenient s)"
  by (cases "mode s") (auto simp: ignore_ws_if_lenient_def intro: scan_ignore_ws_res res_conf_Done)

text \<open>The prologue of the extraction operators.\<close>

lemma prologue_res:
  assumes "conf inp m l d s n"
    and "\<And>s2 d2 n2. conf inp m l d2 s2 n2 \<Longrightarrow> res_conf inp m l (f () s2)"
  shows "res_conf inp m l
           (and_then (read_delayed_unread_chars s) (\<lambda>_ s1. and_then (ignore_ws_if_lenient s1) f))"
proof (rule read_delayed_unread_chars_res_conf [OF assms(1)])
  fix s1 n1
  assume c1: "conf inp m l [] s1 n1"
  show "res_conf inp m l (and_then (ignore_ws_if_lenient s1) f)"
  proof (rule res_conf_and_then [OF ignore_ws_if_lenient_res [OF c1]])
    fix v :: unit and s2 d2 n2
    assume "conf inp m l d2 s2 n2"
    then show "res_conf inp m l (f v s2)" using assms(2) by simp
  qed
qed

lemma getchar_cases_res:
  assumes "conf inp m l d s n"
    and "\<And>s1. getchar s = (None, s1) \<Longrightarrow> fresh inp m l d s1 EOF \<Longrightarrow> res_conf inp m l (a s1)"
    and "\<And>ch s1. getchar s = (Some ch, s1) \<Longrightarrow> fresh inp m l d s1 ch \<Longrightarrow> res_conf inp m l (b ch s1)"
  shows "res_conf inp m l (case getchar s of (None, s1) \<Rightarrow> a s1 | (Some ch, s1) \<Rightarrow> b ch s1)"
proof -
  obtain r s1 where g: "getchar s = (r, s1)" by (cases "getchar s")
  from getchar_fresh [OF assms(1) g] g assms(2,3) show ?thesis
    by (cases r) auto
qed

lemma scan_char_res:
  assumes c: "conf inp m l d s n"
  shows "res_conf inp m l (scan_char c s)"
proof (cases "enqueues (mode s) c")
  case True
  then show ?thesis
    by (simp add: scan_char_def res_conf_Done [OF conf_update_delayed [OF c]])
next
  case False
  then show ?thesis
    unfolding scan_char_def
    by (simp, intro prologue_res [OF c] getchar_cases_res)
      (auto intro: fresh_Failed fresh_Done)
qed

lemma expect_eof_res: "conf inp m l d s n \<Longrightarrow> res_conf inp m l (expect_eof s)"
proof -
  assume c: "conf inp m l d s n"
  obtain r s1 where g: "getchar s = (r, s1)" by (cases "getchar s")
  from getchar_fresh [OF c g] g show ?thesis
    by (cases r) (auto simp: expect_eof_def intro: fresh_Failed fresh_Done)
qed

lemma eof_skip_loop_res: "conf inp m l d s n \<Longrightarrow> res_conf inp m l (eof_skip_loop s)"
proof (induction s arbitrary: n rule: eof_skip_loop.induct)
  case (1 s)
  obtain r s1 where g: "getchar s = (r, s1)" by (cases "getchar s")
  note f = getchar_fresh [OF "1.prems" g]
  show ?case
  proof (cases r)
    case None
    with g have "eof_skip_loop s = Done () s1"
      by (subst eof_skip_loop.simps) simp
    with f None show ?thesis by (auto intro: fresh_Done)
  next
    case (Some ch)
    show ?thesis
    proof (cases "isspace ch")
      case False
      with g Some have "eof_skip_loop s = and_then (ungetchar ch s1) (\<lambda>_ s2. expect_eof s2)"
        by (subst eof_skip_loop.simps) auto
      moreover from f Some have "res_conf inp m l (ungetchar ch s1)"
        by (auto intro: ungetchar_fresh_res')
      ultimately show ?thesis
        by (auto intro!: res_conf_and_then expect_eof_res)
    next
      case True
      with g Some have eq: "eof_skip_loop s = eof_skip_loop s1"
        by (subst eof_skip_loop.simps) auto
      from f Some obtain n1 where c1: "conf inp m l d s1 n1" by (auto dest: fresh_conf)
      from True have "\<not> \<not> isspace ch" by simp
      from "1.IH" [OF g [symmetric] Some this c1] eq show ?thesis by simp
    qed
  qed
qed

lemma scan_eof_res:
  assumes c: "conf inp m l d s n"
  shows "res_conf inp m l (scan_eof s)"
  using expect_eof_res [OF c] eof_skip_loop_res [OF conf_update_delayed [OF c, of "[]"]]
  by (cases "mode s") (simp_all add: scan_eof_def)

lemma Line_loop_res: "conf inp m l d s n \<Longrightarrow> res_conf inp m l (Line_loop var s)"
proof (induction var s arbitrary: n rule: Line_loop.induct)
  case (1 var s)
  obtain r s1 where g: "getchar s = (r, s1)" by (cases "getchar s")
  note f = getchar_fresh [OF "1.prems" g]
  show ?case
  proof (cases r)
    case None
    with g have "Line_loop var s = and_then (ungetchar EOF s1) (\<lambda>_ s2. Done var s2)"
      by (subst Line_loop.simps) simp
    with f None show ?thesis by (auto intro: ungetchar_fresh_res)
  next
    case (Some ch)
    show ?thesis
    proof (cases "ch = 10")
      case True
      with g Some have "Line_loop var s = and_then (ungetchar ch s1) (\<lambda>_ s2. Done var s2)"
        by (subst Line_loop.simps) auto
      with f Some show ?thesis by (auto intro: ungetchar_fresh_res)
    next
      case False
      with g Some have eq: "Line_loop var s = Line_loop (var @ [char_of ch]) s1"
        by (subst Line_loop.simps) auto
      from f Some obtain n1 where c1: "conf inp m l d s1 n1" by (auto dest: fresh_conf)
      from "1.IH" [OF g [symmetric] Some False c1] eq show ?thesis by simp
    qed
  qed
qed

lemma scan_Line_res:
  assumes c: "conf inp m l d s n"
  shows "res_conf inp m l (scan_Line max_size s)"
  unfolding scan_Line_def
  by (rule read_delayed_unread_chars_res_conf [OF c]) (rule Line_loop_res)

lemma Str_loop_res: "conf inp m l d s n \<Longrightarrow> res_conf inp m l (Str_loop max_size var ch s)"
proof (induction max_size var ch s arbitrary: n rule: Str_loop.induct)
  case (1 max_size var ch s)
  show ?case
  proof (cases "length (var @ [char_of ch]) > max_size")
    case True
    then have "Str_loop max_size var ch s = Failed [too_long_string (lang s)] s"
      by (subst Str_loop.simps) simp
    with "1.prems" show ?thesis by (auto intro: res_conf_Failed)
  next
    case False
    obtain r s1 where g: "getchar s = (r, s1)" by (cases "getchar s")
    note f = getchar_fresh [OF "1.prems" g]
    show ?thesis
    proof (cases r)
      case None
      with g False have "Str_loop max_size var ch s =
          and_then (ungetchar EOF s1) (\<lambda>_ s2. Done (var @ [char_of ch]) s2)"
        by (subst Str_loop.simps) simp
      with f None show ?thesis by (auto intro: ungetchar_fresh_res)
    next
      case (Some ch')
      show ?thesis
      proof (cases "isspace ch'")
        case True
        with g Some False have "Str_loop max_size var ch s =
            and_then (ungetchar ch' s1) (\<lambda>_ s2. Done (var @ [char_of ch]) s2)"
          by (subst Str_loop.simps) auto
        with f Some show ?thesis by (auto intro: ungetchar_fresh_res)
      next
        case ns: False
        with g Some False have eq: "Str_loop max_size var ch s =
            Str_loop max_size (var @ [char_of ch]) ch' s1"
          by (subst Str_loop.simps) auto
        from f Some obtain n1 where c1: "conf inp m l d s1 n1" by (auto dest: fresh_conf)
        from "1.IH" [OF False g [symmetric] Some ns c1] eq show ?thesis by simp
      qed
    qed
  qed
qed

lemma scan_Str_res:
  assumes c: "conf inp m l d s n"
  shows "res_conf inp m l (scan_Str max_size s)"
proof (cases "max_size > 0")
  case False
  then show ?thesis by (simp add: scan_Str_def res_conf_Crashed)
next
  case True
  then show ?thesis
    unfolding scan_Str_def
    by (simp, intro prologue_res [OF c] getchar_cases_res)
      (auto intro: fresh_Failed Str_loop_res dest: fresh_conf)
qed

lemma scan_Char_res:
  assumes c: "conf inp m l d s n"
  shows "res_conf inp m l (scan_Char variants s)"
  unfolding scan_Char_def
  by (intro prologue_res [OF c] getchar_cases_res) (auto intro: fresh_Failed fresh_Done)

lemma digits_loop_res: "conf inp m l d s n \<Longrightarrow> res_conf inp m l (digits_loop T is_minus val s)"
proof (induction T is_minus val s arbitrary: n rule: digits_loop.induct)
  case (1 T is_minus val s)
  obtain r s1 where g: "getchar s = (r, s1)" by (cases "getchar s")
  note f = getchar_fresh [OF "1.prems" g]
  show ?case
  proof (cases r)
    case None
    with g have "digits_loop T is_minus val s = and_then (ungetchar EOF s1) (\<lambda>_ s2. Done val s2)"
      by (subst digits_loop.simps) simp
    with f None show ?thesis by (auto intro: ungetchar_fresh_res)
  next
    case (Some ch)
    show ?thesis
    proof (cases "isdigit ch")
      case False
      with g Some have "digits_loop T is_minus val s = and_then (ungetchar ch s1) (\<lambda>_ s2. Done val s2)"
        by (subst digits_loop.simps) auto
      with f Some show ?thesis by (auto intro: ungetchar_fresh_res)
    next
      case True
      let ?ovf = "builtin_mul_overflow T val 10
        \<or> (\<not> is_minus \<and> builtin_add_overflow T (val * 10) (ch - 48))
        \<or> (is_minus \<and> builtin_sub_overflow T (val * 10) (ch - 48))"
      show ?thesis
      proof (cases ?ovf)
        case ovf: True
        with g Some True have "digits_loop T is_minus val s
            = Failed [integer_value_out_of_range (lang s1)] s1"
          by (subst digits_loop.simps) auto
        with f Some show ?thesis by (auto intro: fresh_Failed)
      next
        case ok: False
        with g Some True have eq: "digits_loop T is_minus val s =
            digits_loop T is_minus (if is_minus then val * 10 - (ch - 48) else val * 10 + (ch - 48)) s1"
          by (subst digits_loop.simps) auto
        from f Some obtain n1 where c1: "conf inp m l d s1 n1" by (auto dest: fresh_conf)
        from True have dd: "\<not> \<not> isdigit ch" by simp
        from ok have o1: "\<not> builtin_mul_overflow T val 10"
          and o2: "\<not> (\<not> is_minus \<and> builtin_add_overflow T (val * 10) (ch - 48))"
          and o3: "\<not> (is_minus \<and> builtin_sub_overflow T (val * 10) (ch - 48))" by auto
        from "1.IH" [OF g [symmetric] Some dd o1 o2 o3 c1] eq show ?thesis by simp
      qed
    qed
  qed
qed

lemma first_digit_res: "fresh inp m l d s c \<Longrightarrow> res_conf inp m l (first_digit T is_minus ch s)"
  by (auto simp: first_digit_def intro: fresh_Failed digits_loop_res dest: fresh_conf)

lemma scan_integer_res:
  assumes c: "conf inp m l d s n"
  shows "res_conf inp m l (scan_integer T s)"
  unfolding scan_integer_def
proof (rule getchar_cases_res [OF c])
  fix s1
  assume "fresh inp m l d s1 EOF"
  then show "res_conf inp m l (Failed [read_eof_expected_a_number (lang s1)] s1)"
    by (rule fresh_Failed)
next
  fix ch s1
  assume f: "fresh inp m l d s1 ch"
  then obtain n1 where c1: "conf inp m l d s1 n1" by (auto dest: fresh_conf)
  have "res_conf inp m l (case getchar s1 of
                 (None, s2) \<Rightarrow> Failed [read_eof_expected_a_number (lang s2)] s2
               | (Some ch2, s2) \<Rightarrow> first_digit T True ch2 s2)"
    by (rule getchar_cases_res [OF c1]) (auto intro: fresh_Failed first_digit_res)
  with f show "res_conf inp m l (if ch = 45 then
            (if is_unsigned T then Failed [read_minus_expected_a_positive_number (lang s1)] s1
             else
               case getchar s1 of
                 (None, s2) \<Rightarrow> Failed [read_eof_expected_a_number (lang s2)] s2
               | (Some ch2, s2) \<Rightarrow> first_digit T True ch2 s2)
          else first_digit T False ch s1)"
    by (auto intro: fresh_Failed first_digit_res)
qed

lemma scan_Num_res:
  assumes c: "conf inp m l d s n"
  shows "res_conf inp m l (scan_Num T min_val max_val s)"
proof (cases "min_val \<le> max_val")
  case False
  then show ?thesis by (simp add: scan_Num_def res_conf_Crashed)
next
  case True
  have "res_conf inp m l
     (and_then (read_delayed_unread_chars s) (\<lambda>_ s1.
        and_then (ignore_ws_if_lenient s1) (\<lambda>_ s2.
        and_then (scan_integer T s2) (\<lambda>var s3.
          if var < min_val \<or> var > max_val then Failed [integer_value_out_of_range (lang s3)] s3
          else Done var s3))))"
  proof (rule prologue_res [OF c])
    fix s2 d2 n2
    assume c2: "conf inp m l d2 s2 n2"
    show "res_conf inp m l (and_then (scan_integer T s2) (\<lambda>var s3.
          if var < min_val \<or> var > max_val then Failed [integer_value_out_of_range (lang s3)] s3
          else Done var s3))"
      by (rule res_conf_and_then [OF scan_integer_res [OF c2]])
        (auto intro: res_conf_Failed res_conf_Done)
  qed
  with True show ?thesis by (simp add: scan_Num_def)
qed

lemma integer_part_loop_res:
  "conf inp m l d s n \<Longrightarrow> res_conf inp m l (integer_part_loop F is_minus val s)"
proof (induction F is_minus val s arbitrary: n rule: integer_part_loop.induct)
  case (1 F is_minus val s)
  obtain r s1 where g: "getchar s = (r, s1)" by (cases "getchar s")
  note f = getchar_fresh [OF "1.prems" g]
  show ?case
  proof (cases r)
    case None
    with g have "integer_part_loop F is_minus val s
        = and_then (ungetchar EOF s1) (\<lambda>_ s2. Done (val, False) s2)"
      by (subst integer_part_loop.simps) simp
    with f None show ?thesis by (auto intro: ungetchar_fresh_res)
  next
    case (Some ch)
    let ?val1 = "fl_mul F val (fl_of_int F 10)"
    let ?val2 = "if \<not> is_minus then fl_add F ?val1 (fl_of_int F (ch - 48))
                 else fl_sub F ?val1 (fl_of_int F (ch - 48))"
    consider (point) "ch = 46" | (stop) "ch \<noteq> 46" "\<not> isdigit ch"
      | (inf) "ch \<noteq> 46" "isdigit ch" "fl_isinf F ?val2"
      | (go) "ch \<noteq> 46" "isdigit ch" "\<not> fl_isinf F ?val2" by blast
    then show ?thesis
    proof cases
      case point
      with g Some have "integer_part_loop F is_minus val s = Done (val, True) s1"
        by (subst integer_part_loop.simps) simp
      with f Some show ?thesis by (auto intro: fresh_Done)
    next
      case stop
      with g Some have "integer_part_loop F is_minus val s
          = and_then (ungetchar ch s1) (\<lambda>_ s2. Done (val, False) s2)"
        by (subst integer_part_loop.simps) simp
      with f Some show ?thesis by (auto intro: ungetchar_fresh_res)
    next
      case inf
      with g Some have "integer_part_loop F is_minus val s
          = Failed [real_number_value_out_of_range (lang s1)] s1"
        by (subst integer_part_loop.simps) (simp add: Let_def)
      with f Some show ?thesis by (auto intro: fresh_Failed)
    next
      case go
      with g Some have eq: "integer_part_loop F is_minus val s = integer_part_loop F is_minus ?val2 s1"
        by (subst integer_part_loop.simps) (simp add: Let_def)
      from f Some obtain n1 where c1: "conf inp m l d s1 n1" by (auto dest: fresh_conf)
      from go have dd: "\<not> \<not> isdigit ch" by simp
      from "1.IH" [OF g [symmetric] Some go(1) dd refl refl go(3) c1] eq show ?thesis by simp
    qed
  qed
qed

lemma fraction_loop_res:
  "conf inp m l d s n \<Longrightarrow> res_conf inp m l (fraction_loop F pow10 subpoint s)"
proof (induction F pow10 subpoint s arbitrary: n rule: fraction_loop.induct)
  case (1 F pow10 subpoint s)
  obtain r s1 where g: "getchar s = (r, s1)" by (cases "getchar s")
  note f = getchar_fresh [OF "1.prems" g]
  show ?case
  proof (cases r)
    case None
    with g have "fraction_loop F pow10 subpoint s
        = and_then (ungetchar EOF s1) (\<lambda>_ s2. Done subpoint s2)"
      by (subst fraction_loop.simps) simp
    with f None show ?thesis by (auto intro: ungetchar_fresh_res)
  next
    case (Some ch)
    show ?thesis
    proof (cases "isdigit ch")
      case False
      with g Some have "fraction_loop F pow10 subpoint s
          = and_then (ungetchar ch s1) (\<lambda>_ s2. Done subpoint s2)"
        by (subst fraction_loop.simps) simp
      with f Some show ?thesis by (auto intro: ungetchar_fresh_res)
    next
      case True
      with g Some have eq: "fraction_loop F pow10 subpoint s
          = fraction_loop F (fl_times_tenth F pow10)
              (fl_add F subpoint (fl_mul F (fl_times_tenth F pow10) (fl_of_int F (ch - 48)))) s1"
        by (subst fraction_loop.simps) simp
      from f Some obtain n1 where c1: "conf inp m l d s1 n1" by (auto dest: fresh_conf)
      from True have dd: "\<not> \<not> isdigit ch" by simp
      from "1.IH" [OF g [symmetric] Some dd c1] eq show ?thesis by simp
    qed
  qed
qed

lemma after_point_res:
  assumes c1: "conf inp m l d1 s1 n1"
  shows "res_conf inp m l (and_then (fraction_loop F (fl_of_int F 1) (fl_of_int F 0) s1)
             (\<lambda>subpoint s2.
                 let val' = (if \<not> is_minus then fl_add F val subpoint else fl_sub F val subpoint)
                 in if fl_isinf F val' then Failed [real_number_value_out_of_range (lang s2)] s2
                    else Done val' s2))"
  by (rule res_conf_and_then [OF fraction_loop_res [OF c1]])
    (auto simp: Let_def intro: res_conf_Failed res_conf_Done)

lemma first_real_digit_res:
  assumes f: "fresh inp m l d s c"
  shows "res_conf inp m l (first_real_digit F is_minus ch s)"
proof (cases "ch < 48 \<or> 57 < ch")
  case True
  with f show ?thesis by (auto simp: first_real_digit_def intro: fresh_Failed)
next
  case False
  from f obtain n where c: "conf inp m l d s n" by (auto dest: fresh_conf)
  have "res_conf inp m l
     (and_then (integer_part_loop F is_minus (fl_of_int F (if is_minus then 48 - ch else ch - 48)) s)
          (\<lambda>(val, point) s1.
             if \<not> point then Done val s1
             else
               and_then (fraction_loop F (fl_of_int F 1) (fl_of_int F 0) s1) (\<lambda>subpoint s2.
                 let val' = (if \<not> is_minus then fl_add F val subpoint else fl_sub F val subpoint)
                 in if fl_isinf F val' then Failed [real_number_value_out_of_range (lang s2)] s2
                    else Done val' s2)))"
  proof (rule res_conf_and_then [OF integer_part_loop_res [OF c]])
    fix v :: "'a \<times> bool" and s1 d1 n1
    assume c1: "conf inp m l d1 s1 n1"
    obtain val point where v: "v = (val, point)" by (cases v)
    from after_point_res [OF c1, of F is_minus val] res_conf_Done [OF c1, of val] v
    show "res_conf inp m l
       ((\<lambda>(val, point) s1.
             if \<not> point then Done val s1
             else
               and_then (fraction_loop F (fl_of_int F 1) (fl_of_int F 0) s1) (\<lambda>subpoint s2.
                 let val' = (if \<not> is_minus then fl_add F val subpoint else fl_sub F val subpoint)
                 in if fl_isinf F val' then Failed [real_number_value_out_of_range (lang s2)] s2
                    else Done val' s2)) v s1)"
      by simp
  qed
  with False show ?thesis by (simp add: first_real_digit_def)
qed

lemma scan_floating_point_res:
  assumes c: "conf inp m l d s n"
  shows "res_conf inp m l (scan_floating_point F s)"
  unfolding scan_floating_point_def
proof (rule getchar_cases_res [OF c])
  fix s1
  assume "fresh inp m l d s1 EOF"
  then show "res_conf inp m l (Failed [read_eof_expected_a_number (lang s1)] s1)"
    by (rule fresh_Failed)
next
  fix ch s1
  assume f: "fresh inp m l d s1 ch"
  then obtain n1 where c1: "conf inp m l d s1 n1" by (auto dest: fresh_conf)
  have "res_conf inp m l (case getchar s1 of
                 (None, s2) \<Rightarrow> Failed [read_eof_expected_a_number (lang s2)] s2
               | (Some ch2, s2) \<Rightarrow> first_real_digit F True ch2 s2)"
    by (rule getchar_cases_res [OF c1]) (auto intro: fresh_Failed first_real_digit_res)
  with f show "res_conf inp m l (if ch = 45 then
            (case getchar s1 of
               (None, s2) \<Rightarrow> Failed [read_eof_expected_a_number (lang s2)] s2
             | (Some ch2, s2) \<Rightarrow> first_real_digit F True ch2 s2)
          else first_real_digit F False ch s1)"
    by (auto intro: first_real_digit_res)
qed

lemma scan_Num_real_res:
  assumes c: "conf inp m l d s n"
  shows "res_conf inp m l (scan_Num_real F min_val max_val s)"
proof (cases "fl_le F min_val max_val")
  case False
  then show ?thesis by (simp add: scan_Num_real_def res_conf_Crashed)
next
  case True
  have "res_conf inp m l
     (and_then (read_delayed_unread_chars s) (\<lambda>_ s1.
        and_then (ignore_ws_if_lenient s1) (\<lambda>_ s2.
        and_then (scan_floating_point F s2) (\<lambda>var s3.
          if fl_less F var min_val \<or> fl_less F max_val var
          then Failed [real_number_value_out_of_range (lang s3)] s3
          else Done var s3))))"
  proof (rule prologue_res [OF c])
    fix s2 d2 n2
    assume c2: "conf inp m l d2 s2 n2"
    show "res_conf inp m l (and_then (scan_floating_point F s2) (\<lambda>var s3.
          if fl_less F var min_val \<or> fl_less F max_val var
          then Failed [real_number_value_out_of_range (lang s3)] s3
          else Done var s3))"
      by (rule res_conf_and_then [OF scan_floating_point_res [OF c2]])
        (auto intro: res_conf_Failed res_conf_Done)
  qed
  with True show ?thesis by (simp add: scan_Num_real_def)
qed

lemma run_call_res:
  assumes c: "conf inp m l d s n"
  shows "res_conf inp m l (run_call F cl s)"
proof (cases cl)
  case (CharLit ch)
  with res_conf_and_then [OF scan_char_res [OF c, of ch], of "\<lambda>_ s1. Done Unit s1"]
  show ?thesis by (auto simp: run_call_def intro: res_conf_Done)
next
  case Eof
  with res_conf_and_then [OF scan_eof_res [OF c], of "\<lambda>_ s1. Done Unit s1"]
  show ?thesis by (auto simp: run_call_def intro: res_conf_Done)
next
  case Nl
  with res_conf_and_then [OF scan_char_res [OF c, of 10], of "\<lambda>_ s1. Done Unit s1"]
  show ?thesis by (auto simp: run_call_def scan_nl_def intro: res_conf_Done)
next
  case IgnoreWs
  with res_conf_and_then [OF scan_ignore_ws_res [OF c], of "\<lambda>_ s1. Done Unit s1"]
  show ?thesis by (auto simp: run_call_def intro: res_conf_Done)
next
  case (ReadLine k)
  with res_conf_and_then [OF scan_Line_res [OF c, of k], of "\<lambda>v s1. Done (StrVal v) s1"]
  show ?thesis by (auto simp: run_call_def intro: res_conf_Done)
next
  case (ReadStr k)
  with res_conf_and_then [OF scan_Str_res [OF c, of k], of "\<lambda>v s1. Done (StrVal v) s1"]
  show ?thesis by (auto simp: run_call_def intro: res_conf_Done)
next
  case (ReadChar vs)
  with res_conf_and_then [OF scan_Char_res [OF c, of vs], of "\<lambda>v s1. Done (CharVal v) s1"]
  show ?thesis by (auto simp: run_call_def intro: res_conf_Done)
next
  case (ReadNum T lo hi)
  with res_conf_and_then [OF scan_Num_res [OF c, of T lo hi], of "\<lambda>v s1. Done (NumVal v) s1"]
  show ?thesis by (auto simp: run_call_def intro: res_conf_Done)
next
  case (ReadReal lo hi)
  with res_conf_and_then [OF scan_Num_real_res [OF c, of F lo hi], of "\<lambda>v s1. Done (RealVal v) s1"]
  show ?thesis by (auto simp: run_call_def intro: res_conf_Done)
qed

lemma run_calls_res: "conf inp m l d s n \<Longrightarrow> res_conf inp m l (run_calls F cs s)"
proof (induction cs arbitrary: d s n)
  case Nil
  then show ?case by (auto intro: res_conf_Done)
next
  case (Cons c cs)
  show ?case
    unfolding run_calls.simps
  proof (rule res_conf_and_then [OF run_call_res [OF Cons.prems]])
    fix v s1 d1 n1
    assume "conf inp m l d1 s1 n1"
    from Cons.IH [OF this]
    show "res_conf inp m l (and_then (run_calls F cs s1) (\<lambda>vs s2. Done (v # vs) s2))"
      by (rule res_conf_and_then) (auto intro: res_conf_Done)
  qed
qed

lemma run_calls_new_Scanner: "res_conf inp m l (run_calls F cs (new_Scanner inp m l))"
  by (rule run_calls_res [OF conf_new])

subsection \<open>Reading a line\<close>

lemma of_char_eq_10: "(of_char c :: int) = 10 \<longleftrightarrow> c = CHR 0x0A"
proof -
  have "(of_char c :: int) = of_char (CHR 0x0A) \<longleftrightarrow> c = CHR 0x0A"
    by (rule of_char_eq_iff)
  then show ?thesis by simp
qed

lemma Line_loop_exact:
  "conf inp m l d s n \<Longrightarrow>
     \<exists>s' n'. Line_loop var s = Done (var @ takeWhile (\<lambda>c. c \<noteq> CHR 0x0A) (drop n inp)) s'
            \<and> conf inp m l d s' n'"
proof (induction var s arbitrary: n rule: Line_loop.induct)
  case (1 var s)
  show ?case
  proof (cases "n < length inp")
    case True
    from getchar_conf_lt [OF "1.prems" True] obtain s1 where
      g: "getchar s = (Some (of_char (inp ! n)), s1)" "conf inp m l d s1 (Suc n)" "next_char s1 = None"
      by blast
    from True have dr: "drop n inp = inp ! n # drop (Suc n) inp"
      by (simp add: Cons_nth_drop_Suc)
    show ?thesis
    proof (cases "inp ! n = CHR 0x0A")
      case nl: True
      from ungetchar_conf [OF g(2) g(3), of "of_char (inp ! n)"] True obtain s2 where
        u: "ungetchar (of_char (inp ! n)) s1 = Done () s2" "conf inp m l d s2 n"
        by (auto simp: items_nth_lt)
      from g u nl have "Line_loop var s = Done var s2"
        by (subst Line_loop.simps) (simp add: and_then_def)
      with u dr nl show ?thesis by auto
    next
      case False
      then have ne: "(of_char (inp ! n) :: int) \<noteq> 10" by (simp add: of_char_eq_10)
      with g have eq: "Line_loop var s = Line_loop (var @ [inp ! n]) s1"
        by (subst Line_loop.simps) simp
      from "1.IH" [OF g(1) [symmetric] refl ne g(2)] obtain s' n' where
        "Line_loop (var @ [char_of (of_char (inp ! n) :: int)]) s1 =
           Done ((var @ [char_of (of_char (inp ! n) :: int)])
                  @ takeWhile (\<lambda>c. c \<noteq> CHR 0x0A) (drop (Suc n) inp)) s'"
        "conf inp m l d s' n'" by blast
      with eq dr False show ?thesis by auto
    qed
  next
    case False
    with conf_le [OF "1.prems"] consider "n = length inp" | "n = Suc (length inp)" by linarith
    then obtain s1 where g: "getchar s = (None, s1)" "conf inp m l d s1 (Suc (length inp))"
      "next_char s1 = None"
    proof cases
      case 1
      with getchar_conf_end "1.prems" that show ?thesis by blast
    next
      case 2
      with getchar_conf_eofed "1.prems" that show ?thesis by blast
    qed
    from ungetchar_conf [OF g(2) g(3), of EOF] obtain s2 where
      u: "ungetchar EOF s1 = Done () s2" "conf inp m l d s2 (length inp)"
      by (auto simp: items_nth_len)
    from g u have "Line_loop var s = Done var s2"
      by (subst Line_loop.simps) (simp add: and_then_def)
    with u False show ?thesis by auto
  qed
qed

subsection \<open>Matching the end of the stream\<close>

lemma scan_eof_forgets_queue:
  "mode s \<noteq> TestInput \<Longrightarrow> scan_eof (s\<lparr>delayed_unread_chars := d\<rparr>) = scan_eof s"
  by (cases "mode s") (simp_all add: scan_eof_def)

lemma scan_char_enqueue:
  "mode s \<noteq> TestInput \<Longrightarrow> isspace c \<Longrightarrow>
     scan_char c s = Done () (s\<lparr>delayed_unread_chars :=
                      delayed_unread_chars s @ [if c = 10 then NEWLINE else WHITESPACE]\<rparr>)"
  by (cases "mode s") (simp_all add: scan_char_def enqueues_def)

lemma whitespace_literals_then_eof:
  "mode s \<noteq> TestInput \<Longrightarrow> \<forall>c\<in>set ws. isspace c \<Longrightarrow>
     run_calls F (map CharLit ws @ [Eof]) s =
       and_then (scan_eof s) (\<lambda>_ s1. Done (replicate (Suc (length ws)) Unit) s1)"
proof (induction ws arbitrary: s)
  case Nil
  then show ?case
    by (cases "scan_eof s") (simp_all add: run_call_def and_then_def)
next
  case (Cons c ws)
  let ?s = "s\<lparr>delayed_unread_chars :=
                      delayed_unread_chars s @ [if c = 10 then NEWLINE else WHITESPACE]\<rparr>"
  from Cons.prems have e: "scan_char c s = Done () ?s" by (simp add: scan_char_enqueue)
  from Cons.prems have m: "mode ?s \<noteq> TestInput" by simp
  from Cons.IH [OF m] Cons.prems(2)
  have "run_calls F (map CharLit ws @ [Eof]) ?s =
       and_then (scan_eof ?s) (\<lambda>_ s1. Done (replicate (Suc (length ws)) Unit) s1)" by simp
  with scan_eof_forgets_queue [OF Cons.prems(1)] e show ?case
    by (cases "scan_eof s") (simp_all add: run_call_def and_then_def)
qed

lemma eof_skip_loop_at_end:
  assumes c: "conf inp m l d s n" and n: "length inp \<le> n"
  shows "\<exists>s'. eof_skip_loop s = Done () s'"
proof -
  from conf_le [OF c] n consider "n = length inp" | "n = Suc (length inp)" by linarith
  then obtain s1 where "getchar s = (None, s1)"
  proof cases
    case 1
    with getchar_conf_end c that show ?thesis by blast
  next
    case 2
    with getchar_conf_eofed c that show ?thesis by blast
  qed
  then show ?thesis by (subst eof_skip_loop.simps) simp
qed

subsection \<open>Deferred whitespace obligations\<close>

lemma read_delayed_whitespace:
  assumes "conf inp m l d s n" and "m \<noteq> TestInput" and "n + k \<le> length inp"
    and "\<forall>i<k. isspace (of_char (inp ! (n + i))) \<and> (of_char (inp ! (n + i)) :: int) \<noteq> 10"
  shows "\<exists>s'. read_delayed (replicate k WHITESPACE) s = Done () s' \<and> conf inp m l d s' (n + k)"
  using assms
proof (induction k arbitrary: s n)
  case 0
  then show ?case by simp
next
  case (Suc k)
  from Suc.prems have n: "n < length inp" by simp
  from getchar_conf_lt [OF Suc.prems(1) n] obtain s1 where
    g: "getchar s = (Some (of_char (inp ! n)), s1)" "conf inp m l d s1 (Suc n)"
    by blast
  from Suc.prems(4) have w: "isspace (of_char (inp ! n))" "(of_char (inp ! n) :: int) \<noteq> 10"
    by force+
  from Suc.prems(4) have rest: "\<forall>i<k. isspace (of_char (inp ! (Suc n + i)))
      \<and> (of_char (inp ! (Suc n + i)) :: int) \<noteq> 10" by force
  from Suc.prems(3) have len: "Suc n + k \<le> length inp" by simp
  from Suc.IH [OF g(2) Suc.prems(2) len rest] obtain s' where
    r: "read_delayed (replicate k WHITESPACE) s1 = Done () s'" "conf inp m l d s' (Suc n + k)"
    by blast
  from Suc.prems(1,2) have "mode s \<noteq> TestInput" by (simp add: conf_def)
  with g w r show ?case
    by (cases "mode s") (auto simp: do_read_char_def)
qed

lemma and_then_Done_id: "and_then r (\<lambda>vs s2. Done vs s2) = r"
  by (cases r) (simp_all add: and_then_def)

lemma enqueue_whitespace_literals:
  assumes c: "conf inp m l d s n" and m: "m \<noteq> TestInput"
    and ws: "\<forall>c\<in>set cs. isspace c \<and> c \<noteq> 10"
  shows "\<exists>s'. run_calls F (map CharLit cs @ rest) s =
                and_then (run_calls F rest s') (\<lambda>vs s2. Done (replicate (length cs) Unit @ vs) s2)
            \<and> conf inp m l (d @ replicate (length cs) WHITESPACE) s' n"
  using c ws
proof (induction cs arbitrary: s d)
  case Nil
  then show ?case
    by (intro exI [of _ s]) (simp add: and_then_Done_id)
next
  case (Cons a cs)
  let ?s = "s\<lparr>delayed_unread_chars := delayed_unread_chars s @ [WHITESPACE]\<rparr>"
  from Cons.prems m have md: "mode s \<noteq> TestInput" by (simp add: conf_def)
  with Cons.prems have e: "scan_char a s = Done () ?s" by (simp add: scan_char_enqueue)
  from Cons.prems(1) have ds: "delayed_unread_chars s = d" by (simp add: conf_def)
  from conf_update_delayed [OF Cons.prems(1), of "d @ [WHITESPACE]"] ds
  have c': "conf inp m l (d @ [WHITESPACE]) ?s n" by simp
  from Cons.prems(2) have "\<forall>c\<in>set cs. isspace c \<and> c \<noteq> 10" by simp
  from Cons.IH [OF c' this] obtain s' where
    r: "run_calls F (map CharLit cs @ rest) ?s =
          and_then (run_calls F rest s') (\<lambda>vs s2. Done (replicate (length cs) Unit @ vs) s2)"
    and c'': "conf inp m l ((d @ [WHITESPACE]) @ replicate (length cs) WHITESPACE) s' n" by blast
  from e r have "run_calls F (map CharLit (a # cs) @ rest) s =
      and_then (run_calls F rest s') (\<lambda>vs s2. Done (replicate (length (a # cs)) Unit @ vs) s2)"
    by (cases "run_calls F rest s'") (simp_all add: run_call_def and_then_def)
  moreover from c'' have "conf inp m l (d @ replicate (length (a # cs)) WHITESPACE) s' n"
    by (simp add: replicate_app_Cons_same)
  ultimately show ?case by blast
qed

subsection \<open>Finalization\<close>

lemma outcome_of_None: "outcome_of cv r = None \<longleftrightarrow> (\<exists>v s'. r = Done v s')"
  by (cases r) (simp_all add: outcome_of_def)

lemma do_destructor_checks_passes:
  "outcome_of cv (do_destructor_checks s) = None \<longleftrightarrow> mode s = Lax \<or> (\<exists>s'. scan_eof s = Done () s')"
  by (cases "mode s") (auto simp: do_destructor_checks_def outcome_of_None)

lemma all_destructor_checks_None:
  "all_destructor_checks cv scanners = None \<longleftrightarrow>
     (\<forall>s\<in>set scanners. mode s = Lax \<or> (\<exists>s'. scan_eof s = Done () s'))"
proof (induction scanners)
  case Nil
  then show ?case by simp
next
  case (Cons s ss)
  show ?case
  proof (cases "outcome_of cv (do_destructor_checks s)")
    case None
    with Cons do_destructor_checks_passes [of cv s] show ?thesis by simp
  next
    case (Some out)
    with do_destructor_checks_passes [of cv s] show ?thesis by simp
  qed
qed

lemma all_destructor_checks_Some:
  "all_destructor_checks cv scanners = Some out \<Longrightarrow>
     \<exists>s\<in>set scanners. mode s \<noteq> Lax \<and> Scanner_destructor cv s = Some out"
proof (induction scanners)
  case Nil
  then show ?case by simp
next
  case (Cons s ss)
  show ?case
  proof (cases "outcome_of cv (do_destructor_checks s)")
    case None
    with Cons show ?thesis by simp
  next
    case (Some o1)
    with Cons.prems have "o1 = out" by simp
    moreover from Some have "mode s \<noteq> Lax"
      by (auto simp: do_destructor_checks_def outcome_of_def)
    ultimately show ?thesis using Some by (simp add: Scanner_destructor_def)
  qed
qed

lemma strict_destructor_at_unread_byte:
  assumes c: "conf inp TestInput l d s n" and n: "n < length inp"
  shows "Scanner_destructor cv s =
           Some (Exit 1 Cout
             ((case l of EN \<Rightarrow> ''Line '' | PL \<Rightarrow> ''Wiersz '')
              @ show_nat (line (pos_after inp n))
              @ (case l of EN \<Rightarrow> '', position '' | PL \<Rightarrow> '', pozycja '')
              @ show_nat (pos (pos_after inp n)) @ '': ''
              @ (case l of EN \<Rightarrow> ''Read '' | PL \<Rightarrow> ''Wczytano '')
              @ char_description (of_char (inp ! n))
              @ (case l of EN \<Rightarrow> '', expected EOF'' | PL \<Rightarrow> '', oczekiwano EOF'')
              @ ''\<newline>''))"
proof -
  from getchar_conf_lt [OF c n] obtain s1 where
    g: "getchar s = (Some (of_char (inp ! n)), s1)" and c1: "conf inp TestInput l d s1 (Suc n)"
    by blast
  from conf_fields [OF c] have m: "mode s = TestInput" by simp
  from conf_fields [OF c1] conf_last_char_pos [OF c1]
  have f: "mode s1 = TestInput" "lang s1 = l" "last_char_pos s1 = pos_after inp n" by simp_all
  from g m f show ?thesis
    by (cases l)
      (simp_all add: Scanner_destructor_def do_destructor_checks_def scan_eof_def expect_eof_def
        outcome_of_def error_def do_error_def StreamImpl_exit_def)
qed

subsection \<open>Sampling: the range length and the limit as numbers\<close>

lemma unat_ucast_64:
  assumes "LENGTH('a::len) \<le> 64"
  shows "unat (ucast (x :: 'a word) :: 64 word) = unat x"
proof -
  have "unat x < 2 ^ LENGTH('a)" by simp
  also from assms have "(2::nat) ^ LENGTH('a) \<le> 2 ^ 64" by (intro power_increasing) simp_all
  finally have "unat x < 2 ^ LENGTH(64)" by simp
  then show ?thesis by (simp only: unsigned_ucast_eq take_bit_nat_eq_self)
qed

lemma unat_minus_1_64: "unat (- 1 :: 64 word) = 2 ^ 64 - 1"
  by (simp add: unsigned_minus_1_eq_mask mask_eq_exp_minus_1)

lemma unat_generator_range_len: "unat generator_range_len = 2 ^ 64 - 1"
  by (simp add: generator_range_len_def unat_minus_1_64)

text \<open>The length of the range, read as a number: it wraps to 0 exactly for the full range of
  a 64-bit type.\<close>

lemma unat_span:
  assumes w: "LENGTH('a::len) \<le> 64" and le: "min_val \<le> (max_val :: 'a word)"
  shows "unat ((ucast max_val :: 64 word) - ucast min_val) = unat max_val - unat min_val"
proof -
  from le have "unat min_val \<le> unat max_val" by (simp add: word_le_nat_alt)
  then have "(ucast min_val :: 64 word) \<le> ucast max_val"
    by (simp add: word_le_nat_alt unat_ucast_64 [OF w])
  then show ?thesis by (simp add: unat_sub unat_ucast_64 [OF w])
qed

lemma unat_range_len:
  assumes w: "LENGTH('a::len) \<le> 64" and le: "min_val \<le> (max_val :: 'a word)"
    and nz: "(ucast max_val :: 64 word) - ucast min_val + 1 \<noteq> 0"
  shows "unat ((ucast max_val :: 64 word) - ucast min_val + 1) = unat max_val - unat min_val + 1"
proof -
  from nz have "1 + ((ucast max_val :: 64 word) - ucast min_val) \<noteq> 0" by (simp add: add.commute)
  from unatSuc [OF this] unat_span [OF w le] show ?thesis by (simp add: add.commute)
qed

lemma range_len_0:
  assumes w: "LENGTH('a::len) \<le> 64" and le: "min_val \<le> (max_val :: 'a word)"
    and z: "(ucast max_val :: 64 word) - ucast min_val + 1 = 0"
  shows "LENGTH('a) = 64 \<and> min_val = 0 \<and> max_val = - 1"
proof -
  from z have "(ucast max_val :: 64 word) - ucast min_val = - 1"
    by (simp add: eq_neg_iff_add_eq_0)
  then have "unat ((ucast max_val :: 64 word) - ucast min_val) = 2 ^ 64 - 1"
    by (simp add: unat_minus_1_64)
  with unat_span [OF w le] have d: "unat max_val - unat min_val = 2 ^ 64 - 1" by simp
  have lt: "unat max_val < 2 ^ LENGTH('a)" by simp
  have "\<not> LENGTH('a) < 64"
  proof
    assume "LENGTH('a) < 64"
    then have "(2::nat) ^ LENGTH('a) \<le> 2 ^ 63" by (intro power_increasing) simp_all
    moreover have "(2::nat) ^ 63 \<le> 2 ^ 64 - 1" by simp
    ultimately show False using lt d by linarith
  qed
  with w have l: "LENGTH('a) = 64" by simp
  with lt have "unat max_val < 2 ^ 64" by simp
  moreover from le have "unat min_val \<le> unat max_val" by (simp add: word_le_nat_alt)
  ultimately have "unat min_val = 0" and m: "unat max_val = 2 ^ 64 - 1" using d by linarith+
  then have "min_val = 0" by (simp add: unat_0_iff)
  moreover from m l have "unat max_val = unat (- 1 :: 'a word)" by (simp add: unsigned_minus_1_eq_mask mask_eq_exp_minus_1)
  then have "max_val = - 1" by (simp add: word_unat_eq_iff)
  ultimately show ?thesis using l by simp
qed

lemma rejection_loop_Some:
  "rejection_loop limit range_len draws = Some (val, gs) \<Longrightarrow>
     \<exists>rejected g. draws = rejected @ g # gs \<and> (\<forall>x\<in>set rejected. limit \<le> x)
        \<and> g < limit \<and> val = g mod range_len"
proof (induction draws)
  case Nil
  then show ?case by simp
next
  case (Cons a draws)
  show ?case
  proof (cases "limit \<le> a")
    case True
    with Cons.prems have "rejection_loop limit range_len draws = Some (val, gs)" by simp
    from Cons.IH [OF this] obtain rejected g where
      "draws = rejected @ g # gs" "\<forall>x\<in>set rejected. limit \<le> x" "g < limit" "val = g mod range_len"
      by blast
    with True show ?thesis by (intro exI [of _ "a # rejected"] exI [of _ g]) simp
  next
    case False
    with Cons.prems have "val = a mod range_len" "gs = draws" by simp_all
    with False show ?thesis by (intro exI [of _ "[]"] exI [of _ a]) simp
  qed
qed

lemma rejection_loop_returns:
  "\<exists>g\<in>set draws. g < limit \<Longrightarrow> \<exists>val gs. rejection_loop limit range_len draws = Some (val, gs)"
  by (induction draws) (auto simp: Let_def)

lemma unat_limit:
  assumes nz: "range_len \<noteq> 0"
  shows "unat (generator_range_len - generator_range_len mod range_len)
           = (2 ^ 64 - 1) - (2 ^ 64 - 1) mod unat range_len"
proof -
  have "unat (generator_range_len mod range_len) \<le> unat generator_range_len"
    by (simp add: unat_mod)
  then have "generator_range_len mod range_len \<le> generator_range_len"
    by (simp only: word_le_nat_alt)
  then show ?thesis by (simp add: unat_sub unat_mod unat_generator_range_len)
qed

lemma limit_multiple:
  assumes nz: "range_len \<noteq> 0"
  shows "unat range_len dvd unat (generator_range_len - generator_range_len mod range_len)"
  by (simp only: unat_limit [OF nz]) (rule dvd_minus_mod)

lemma limit_ge_range_len:
  assumes nz: "range_len \<noteq> 0"
  shows "unat range_len \<le> unat (generator_range_len - generator_range_len mod range_len)"
proof -
  let ?G = "(2::nat) ^ 64 - 1"
  let ?r = "unat range_len"
  from nz have r: "0 < ?r" by (simp add: unat_gt_0)
  have "?r < 2 ^ LENGTH(64)" by (rule unsigned_less)
  then have le: "?r \<le> ?G" by simp
  have "?G = ?G div ?r * ?r + ?G mod ?r" by simp
  then have e: "?G - ?G mod ?r = ?G div ?r * ?r" by linarith
  from le r have "1 \<le> ?G div ?r" by (simp add: div_greater_zero_iff Suc_le_eq)
  then have "1 * ?r \<le> ?G div ?r * ?r" by (rule mult_le_mono1)
  with e show ?thesis by (simp only: unat_limit [OF nz])
qed

lemma zero_accepted:
  assumes nz: "range_len \<noteq> 0"
  shows "0 < generator_range_len - generator_range_len mod range_len"
proof -
  from nz have "0 < unat range_len" by (simp add: unat_gt_0)
  with limit_ge_range_len [OF nz] show ?thesis by (simp add: word_less_nat_alt)
qed

text \<open>The value computed from an accepted draw, as a number.\<close>

lemma unat_result:
  assumes w: "LENGTH('a::len) \<le> 64" and le: "min_val \<le> (max_val :: 'a word)"
    and nz: "(ucast max_val :: 64 word) - ucast min_val + 1 \<noteq> 0"
  shows "unat (ucast (g mod ((ucast max_val :: 64 word) - ucast min_val + 1)) + min_val)
           = unat g mod (unat max_val - unat min_val + 1) + unat min_val"
proof -
  let ?R = "(ucast max_val :: 64 word) - ucast min_val + 1"
  let ?j = "unat g mod (unat max_val - unat min_val + 1)"
  from le have ab: "unat min_val \<le> unat max_val" by (simp add: word_le_nat_alt)
  have j: "unat (g mod ?R) = ?j" by (simp only: unat_mod unat_range_len [OF w le nz])
  have "?j < unat max_val - unat min_val + 1" by simp
  with ab have b: "?j + unat min_val \<le> unat max_val" by linarith
  have lt: "unat max_val < 2 ^ LENGTH('a)" by (rule unsigned_less)
  with b have "?j < 2 ^ LENGTH('a)" by linarith
  then have u: "unat (ucast (g mod ?R) :: 'a word) = ?j"
    by (simp only: unsigned_ucast_eq j take_bit_nat_eq_self)
  from b lt have "unat (ucast (g mod ?R) :: 'a word) + unat min_val < 2 ^ LENGTH('a)"
    by (simp only: u)
  then have "unat (ucast (g mod ?R) + min_val) = unat (ucast (g mod ?R) :: 'a word) + unat min_val"
    by (simp only: unat_add_lem)
  with u show ?thesis by simp
qed

lemma Random_unsigned_range:
  assumes w: "LENGTH('a::len) \<le> 64" and le: "min_val \<le> (max_val :: 'a word)"
    and r: "Random_unsigned min_val max_val draws = Sampled v gs"
  shows "min_val \<le> v \<and> v \<le> max_val"
proof (cases "(ucast max_val :: 64 word) - ucast min_val + 1 = 0")
  case True
  from range_len_0 [OF w le True] show ?thesis by simp
next
  case False
  let ?R = "(ucast max_val :: 64 word) - ucast min_val + 1"
  let ?L = "generator_range_len - generator_range_len mod ?R"
  from r le False obtain val where l: "rejection_loop ?L ?R draws = Some (val, gs)"
    and v: "v = ucast val + min_val"
    by (auto simp: Random_unsigned_def Let_def split: option.splits)
  from rejection_loop_Some [OF l] obtain g where "val = g mod ?R" by blast
  with v unat_result [OF w le False, of g]
  have u: "unat v = unat g mod (unat max_val - unat min_val + 1) + unat min_val" by simp
  have "unat g mod (unat max_val - unat min_val + 1) < unat max_val - unat min_val + 1" by simp
  moreover from le have "unat min_val \<le> unat max_val" by (simp add: word_le_nat_alt)
  ultimately show ?thesis by (simp only: word_le_nat_alt u) linarith
qed

lemma card_residue_class:
  assumes r: "0 < r" and d: "r dvd L" and k: "k < r"
  shows "card {n::nat. n < L \<and> n mod r = k} = L div r"
proof -
  from d obtain q where L: "L = r * q" by (auto simp: dvd_def)
  have "{n. n < L \<and> n mod r = k} = (\<lambda>i. i * r + k) ` {..<q}"
  proof (intro set_eqI iffI)
    fix n
    assume "n \<in> {n. n < L \<and> n mod r = k}"
    then have n: "n < r * q" "n mod r = k" by (simp_all add: L)
    then have "n div r < q" by (simp add: less_mult_imp_div_less mult.commute)
    moreover from n have "n = n div r * r + k" by (metis div_mult_mod_eq)
    ultimately show "n \<in> (\<lambda>i. i * r + k) ` {..<q}" by blast
  next
    fix n
    assume "n \<in> (\<lambda>i. i * r + k) ` {..<q}"
    then obtain i where i: "i < q" "n = i * r + k" by auto
    from i k have "n < Suc i * r" by simp
    also from i have "Suc i * r \<le> q * r" by (intro mult_le_mono1) simp
    finally have "n < L" by (simp add: L mult.commute)
    with i k show "n \<in> {n. n < L \<and> n mod r = k}" by simp
  qed
  moreover from r have "inj_on (\<lambda>i. i * r + k) {..<q}" by (auto simp: inj_on_def)
  ultimately have "card {n. n < L \<and> n mod r = k} = card {..<q}" by (simp add: card_image)
  with r L show ?thesis by simp
qed

lemma card_draws_by_unat:
  assumes "L < 2 ^ 64"
  shows "card {g :: 64 word. unat g < L \<and> P (unat g)} = card {n. n < L \<and> P n}"
proof -
  have "unat ` {g :: 64 word. unat g < L \<and> P (unat g)} = {n. n < L \<and> P n}"
  proof (intro set_eqI iffI)
    fix n
    assume "n \<in> unat ` {g :: 64 word. unat g < L \<and> P (unat g)}"
    then show "n \<in> {n. n < L \<and> P n}" by auto
  next
    fix n
    assume "n \<in> {n. n < L \<and> P n}"
    then have n: "n < L" "P n" by simp_all
    from n(1) assms have "n < 2 ^ 64" by (rule less_trans)
    then have "n mod 2 ^ LENGTH(64) = n" by simp
    then have "unat (of_nat n :: 64 word) = n" by (simp only: unat_of_nat)
    with n show "n \<in> unat ` {g :: 64 word. unat g < L \<and> P (unat g)}"
      by (intro image_eqI [of _ _ "of_nat n"]) simp_all
  qed
  moreover have "inj_on unat {g :: 64 word. unat g < L \<and> P (unat g)}"
    by (rule inj_onI) (rule word_unat_eq_iff [THEN iffD2])
  then have "card (unat ` {g :: 64 word. unat g < L \<and> P (unat g)})
      = card {g :: 64 word. unat g < L \<and> P (unat g)}" by (rule card_image)
  ultimately show ?thesis by (simp only:)
qed

lemma Random_unsigned_single:
  assumes le: "min_val \<le> (max_val :: 'a::len word)"
    and nz: "(ucast max_val :: 64 word) - ucast min_val + 1 \<noteq> 0"
  shows "Random_unsigned min_val max_val [g] = Sampled v [] \<longleftrightarrow>
           g < generator_range_len - generator_range_len mod ((ucast max_val :: 64 word) - ucast min_val + 1)
           \<and> ucast (g mod ((ucast max_val :: 64 word) - ucast min_val + 1)) + min_val = v"
  using le nz by (auto simp: Random_unsigned_def Let_def not_le)

lemma Random_unsigned_single_rejected:
  assumes le: "min_val \<le> (max_val :: 'a::len word)"
    and nz: "(ucast max_val :: 64 word) - ucast min_val + 1 \<noteq> 0"
  shows "Random_unsigned min_val max_val [g] = Exhausted \<longleftrightarrow>
           generator_range_len - generator_range_len mod ((ucast max_val :: 64 word) - ucast min_val + 1) \<le> g"
  using le nz by (auto simp: Random_unsigned_def Let_def not_le)

lemma count_draws:
  assumes w: "LENGTH('a::len) \<le> 64" and le: "min_val \<le> (max_val :: 'a word)"
    and nz: "(ucast max_val :: 64 word) - ucast min_val + 1 \<noteq> 0"
    and v: "min_val \<le> v" "v \<le> max_val"
  shows "card {g. Random_unsigned min_val max_val [g] = Sampled v []}
           = unat (generator_range_len - generator_range_len mod ((ucast max_val :: 64 word) - ucast min_val + 1))
               div (unat max_val - unat min_val + 1)"
proof -
  let ?R = "(ucast max_val :: 64 word) - ucast min_val + 1"
  let ?L = "generator_range_len - generator_range_len mod ?R"
  let ?r = "unat max_val - unat min_val + 1"
  let ?k = "unat v - unat min_val"
  from v have va: "unat min_val \<le> unat v" "unat v \<le> unat max_val"
    by (simp_all add: word_le_nat_alt)
  have "{g. Random_unsigned min_val max_val [g] = Sampled v []}
          = {g. unat g < unat ?L \<and> unat g mod ?r = ?k}"
  proof (intro set_eqI)
    fix g
    have "ucast (g mod ?R) + min_val = v \<longleftrightarrow> unat (ucast (g mod ?R) + min_val) = unat v"
      by (simp only: word_unat_eq_iff)
    also have "\<dots> \<longleftrightarrow> unat g mod ?r + unat min_val = unat v"
      by (simp only: unat_result [OF w le nz])
    also from va have "\<dots> \<longleftrightarrow> unat g mod ?r = ?k" by linarith
    finally show "g \<in> {g. Random_unsigned min_val max_val [g] = Sampled v []}
        \<longleftrightarrow> g \<in> {g. unat g < unat ?L \<and> unat g mod ?r = ?k}"
      by (simp add: Random_unsigned_single [OF le nz] word_less_nat_alt)
  qed
  moreover have "unat ?L < 2 ^ LENGTH(64)" by (rule unsigned_less)
  then have "unat ?L < 2 ^ 64" by simp
  then have "card {g :: 64 word. unat g < unat ?L \<and> unat g mod ?r = ?k}
      = card {n. n < unat ?L \<and> n mod ?r = ?k}"
    by (rule card_draws_by_unat)
  moreover from limit_multiple [OF nz] have "?r dvd unat ?L"
    by (simp only: unat_range_len [OF w le nz])
  with va have "card {n. n < unat ?L \<and> n mod ?r = ?k} = unat ?L div ?r"
    by (intro card_residue_class) simp_all
  ultimately show ?thesis by simp
qed

lemma count_draws_pos:
  assumes w: "LENGTH('a::len) \<le> 64" and le: "min_val \<le> (max_val :: 'a word)"
    and nz: "(ucast max_val :: 64 word) - ucast min_val + 1 \<noteq> 0"
  shows "0 < unat (generator_range_len - generator_range_len mod ((ucast max_val :: 64 word) - ucast min_val + 1))
               div (unat max_val - unat min_val + 1)"
proof -
  from limit_ge_range_len [OF nz] have "unat max_val - unat min_val + 1
      \<le> unat (generator_range_len - generator_range_len mod ((ucast max_val :: 64 word) - ucast min_val + 1))"
    by (simp only: unat_range_len [OF w le nz])
  then show ?thesis by (simp add: div_greater_zero_iff)
qed

lemma ucast_same_length:
  assumes "LENGTH('a::len) = 64"
  shows "(ucast (g :: 64 word) :: 'a word) = v \<longleftrightarrow> g = ucast v"
proof -
  have "unat g < 2 ^ LENGTH(64)" by (rule unsigned_less)
  with assms have "unat g < 2 ^ LENGTH('a)" by simp
  then have a: "unat (ucast g :: 'a word) = unat g"
    by (simp only: unsigned_ucast_eq take_bit_nat_eq_self)
  from assms have b: "unat (ucast v :: 64 word) = unat v" by (intro unat_ucast_64) simp
  show ?thesis by (simp only: word_unat_eq_iff a b)
qed

lemma count_draws_full:
  assumes w: "LENGTH('a::len) \<le> 64" and le: "min_val \<le> (max_val :: 'a word)"
    and z: "(ucast max_val :: 64 word) - ucast min_val + 1 = 0"
  shows "card {g. Random_unsigned min_val max_val [g] = Sampled v []} = 1"
proof -
  from range_len_0 [OF w le z] have l: "LENGTH('a) = 64" by simp
  from le z have "{g. Random_unsigned min_val max_val [g] = Sampled v []} = {g. ucast g = v}"
    by (simp add: Random_unsigned_def)
  also have "\<dots> = {ucast v}" by (auto simp: ucast_same_length [OF l])
  finally show ?thesis by simp
qed

lemma Random_unsigned_uniform:
  assumes w: "LENGTH('a::len) \<le> 64" and le: "min_val \<le> (max_val :: 'a word)"
    and v: "min_val \<le> v" "v \<le> max_val" and v': "min_val \<le> v'" "v' \<le> max_val"
  shows "card {g. Random_unsigned min_val max_val [g] = Sampled v []}
           = card {g. Random_unsigned min_val max_val [g] = Sampled v' []}
       \<and> 0 < card {g. Random_unsigned min_val max_val [g] = Sampled v []}"
proof (cases "(ucast max_val :: 64 word) - ucast min_val + 1 = 0")
  case True
  from count_draws_full [OF w le True] show ?thesis by simp
next
  case False
  from count_draws [OF w le False v] count_draws [OF w le False v'] count_draws_pos [OF w le False]
  show ?thesis by simp
qed

lemma Random_unsigned_first_accepted:
  assumes le: "min_val \<le> (max_val :: 'a::len word)"
    and r: "Random_unsigned min_val max_val draws = Sampled v gs"
  shows "\<exists>rejected g. draws = rejected @ g # gs
           \<and> (\<forall>x\<in>set rejected. Random_unsigned min_val max_val [x] = Exhausted)
           \<and> Random_unsigned min_val max_val [g] = Sampled v []"
proof (cases "(ucast max_val :: 64 word) - ucast min_val + 1 = 0")
  case True
  with r le obtain g where "draws = g # gs" "v = ucast g"
    by (auto simp: Random_unsigned_def split: list.splits)
  with True le show ?thesis
    by (intro exI [of _ "[]"] exI [of _ g]) (simp add: Random_unsigned_def)
next
  case False
  let ?R = "(ucast max_val :: 64 word) - ucast min_val + 1"
  let ?L = "generator_range_len - generator_range_len mod ?R"
  from r le False obtain val where l: "rejection_loop ?L ?R draws = Some (val, gs)"
    and v: "v = ucast val + min_val"
    by (auto simp: Random_unsigned_def Let_def split: option.splits)
  from rejection_loop_Some [OF l] obtain rejected g where
    d: "draws = rejected @ g # gs" "\<forall>x\<in>set rejected. ?L \<le> x" "g < ?L" "val = g mod ?R"
    by blast
  from d(2) have "\<forall>x\<in>set rejected. Random_unsigned min_val max_val [x] = Exhausted"
    by (simp add: Random_unsigned_single_rejected [OF le False])
  moreover from d(3,4) v have "Random_unsigned min_val max_val [g] = Sampled v []"
    by (simp add: Random_unsigned_single [OF le False])
  ultimately show ?thesis using d(1) by blast
qed

lemma Random_unsigned_returns:
  assumes le: "min_val \<le> (max_val :: 'a::len word)"
    and a: "\<exists>g\<in>set draws. Random_unsigned min_val max_val [g] \<noteq> Exhausted"
  shows "\<exists>v gs. Random_unsigned min_val max_val draws = Sampled v gs"
proof (cases "(ucast max_val :: 64 word) - ucast min_val + 1 = 0")
  case True
  from a obtain g gs where "draws = g # gs" by (cases draws) auto
  with True le show ?thesis by (simp add: Random_unsigned_def)
next
  case False
  let ?R = "(ucast max_val :: 64 word) - ucast min_val + 1"
  let ?L = "generator_range_len - generator_range_len mod ?R"
  from a have "\<exists>g\<in>set draws. g < ?L"
    by (simp add: Random_unsigned_single_rejected [OF le False] not_le)
  from rejection_loop_returns [OF this, of ?R] obtain val gs where
    "rejection_loop ?L ?R draws = Some (val, gs)" by blast
  with le False show ?thesis by (simp add: Random_unsigned_def Let_def)
qed

lemma Random_unsigned_zero_accepted:
  assumes le: "min_val \<le> (max_val :: 'a::len word)"
  shows "Random_unsigned min_val max_val [0] \<noteq> Exhausted"
proof (cases "(ucast max_val :: 64 word) - ucast min_val + 1 = 0")
  case True
  with le show ?thesis by (simp add: Random_unsigned_def)
next
  case False
  from zero_accepted [OF False]
  have "\<not> generator_range_len - generator_range_len mod ((ucast max_val :: 64 word) - ucast min_val + 1) \<le> 0"
    by (simp only: not_le)
  then show ?thesis
    by (simp only: Random_unsigned_single_rejected [OF le False] not_False_eq_True)
qed

lemma Random_unsigned_full_64:
  assumes "LENGTH('a::len) = 64"
  shows "Random_unsigned (0 :: 'a word) (- 1) (g # gs) = Sampled (ucast g) gs"
proof -
  have "unat (- 1 :: 'a word) = 2 ^ LENGTH('a) - 1"
    by (simp add: unsigned_minus_1_eq_mask mask_eq_exp_minus_1)
  with assms have "unat (ucast (- 1 :: 'a word) :: 64 word) = unat (- 1 :: 64 word)"
    by (simp add: unat_ucast_64 unat_minus_1_64)
  then have "(ucast (- 1 :: 'a word) :: 64 word) = - 1" by (simp only: word_unat_eq_iff)
  then show ?thesis by (simp add: Random_unsigned_def)
qed

text \<open>Subtracting \<^verbatim>\<open>numeric_limits<T>::min()\<close> turns the signed order into the unsigned one.\<close>

lemma uint_shifted:
  "uint (x - numeric_limits_min) = sint (x :: 'a::len word) + 2 ^ (LENGTH('a) - 1)"
proof -
  have p: "uint ((2 :: 'a word) ^ (LENGTH('a) - 1)) = 2 ^ (LENGTH('a) - 1)"
    by transfer (simp add: take_bit_int_eq_self)
  have "Suc (LENGTH('a) - 1) = LENGTH('a)" by simp
  then have "(2 :: 'a word) ^ Suc (LENGTH('a) - 1) = 0" by (simp only: word_pow_0)
  then have "(2 :: 'a word) ^ (LENGTH('a) - 1) + 2 ^ (LENGTH('a) - 1) = 0"
    by (simp only: power_Suc mult_2)
  then have "- ((2 :: 'a word) ^ (LENGTH('a) - 1)) = 2 ^ (LENGTH('a) - 1)"
    by (simp only: neg_eq_iff_add_eq_0)
  then have e: "x - numeric_limits_min = x + 2 ^ (LENGTH('a) - 1)"
    by (simp add: numeric_limits_min_def diff_conv_add_uminus del: add_uminus_conv_diff)
  have "uint (x - numeric_limits_min) = take_bit LENGTH('a) (uint x + 2 ^ (LENGTH('a) - 1))"
    by (simp only: e uint_word_ariths take_bit_eq_mod p)
  also have "\<dots> = sint x + 2 ^ (LENGTH('a) - 1)"
    by (simp add: sint_uint signed_take_bit_eq_take_bit_shift)
  finally show ?thesis .
qed

lemma shifted_le: "x - numeric_limits_min \<le> y - numeric_limits_min \<longleftrightarrow> sint x \<le> sint (y :: 'a::len word)"
  by (simp add: word_le_def uint_shifted)

lemma Random_signed_range:
  assumes w: "LENGTH('a::len) \<le> 64" and le: "sint min_val \<le> sint (max_val :: 'a word)"
    and r: "Random_signed min_val max_val draws = Sampled v gs"
  shows "sint min_val \<le> sint v \<and> sint v \<le> sint max_val"
proof -
  let ?t = "numeric_limits_min :: 'a word"
  from r le obtain u where u: "Random_unsigned (min_val - ?t) (max_val - ?t) draws = Sampled u gs"
    and v: "v = u + ?t"
    by (auto simp: Random_signed_def Let_def split: sample.splits)
  from le have "min_val - ?t \<le> max_val - ?t" by (simp add: shifted_le)
  from Random_unsigned_range [OF w this u] have "min_val - ?t \<le> v - ?t \<and> v - ?t \<le> max_val - ?t"
    by (simp add: v)
  then show ?thesis by (simp add: shifted_le)
qed


lemma Random_signed_delegates:
  assumes "sint min_val \<le> sint (max_val :: 'a::len word)"
  shows "Random_signed min_val max_val draws = Sampled v gs \<longleftrightarrow>
           Random_unsigned (min_val - numeric_limits_min) (max_val - numeric_limits_min) draws
             = Sampled (v - numeric_limits_min) gs"
  using assms by (auto simp: Random_signed_def Let_def split: sample.splits)

lemma Random_signed_no_assertion:
  assumes "sint min_val \<le> sint (max_val :: 'a::len word)"
  shows "Random_signed min_val max_val draws \<noteq> AssertionFailed"
proof -
  from assms have "min_val - numeric_limits_min \<le> max_val - numeric_limits_min"
    by (simp add: shifted_le)
  then have "Random_unsigned (min_val - numeric_limits_min) (max_val - numeric_limits_min) draws
      \<noteq> AssertionFailed"
    by (simp add: Random_unsigned_def Let_def split: list.splits option.splits)
  with assms show ?thesis by (simp add: Random_signed_def Let_def split: sample.splits)
qed

lemma Random_signed_uniform:
  assumes w: "LENGTH('a::len) \<le> 64" and le: "sint min_val \<le> sint (max_val :: 'a word)"
    and v: "sint min_val \<le> sint v" "sint v \<le> sint max_val"
    and v': "sint min_val \<le> sint v'" "sint v' \<le> sint max_val"
  shows "card {g. Random_signed min_val max_val [g] = Sampled v []}
           = card {g. Random_signed min_val max_val [g] = Sampled v' []}
       \<and> 0 < card {g. Random_signed min_val max_val [g] = Sampled v []}"
proof -
  let ?t = "numeric_limits_min :: 'a word"
  from le v v' have "min_val - ?t \<le> max_val - ?t"
    "min_val - ?t \<le> v - ?t" "v - ?t \<le> max_val - ?t"
    "min_val - ?t \<le> v' - ?t" "v' - ?t \<le> max_val - ?t"
    by (simp_all add: shifted_le)
  then have "card {g. Random_unsigned (min_val - ?t) (max_val - ?t) [g] = Sampled (v - ?t) []}
           = card {g. Random_unsigned (min_val - ?t) (max_val - ?t) [g] = Sampled (v' - ?t) []}
       \<and> 0 < card {g. Random_unsigned (min_val - ?t) (max_val - ?t) [g] = Sampled (v - ?t) []}"
    by (rule Random_unsigned_uniform [OF w])
  then show ?thesis unfolding Random_signed_delegates [OF le] .
qed

subsection \<open>The extraction operators at any cursor\<close>

lemma cursor_split:
  assumes "drop n inp = D" and "D \<noteq> []"
  obtains before where "inp = before @ D" and "length before = n"
proof -
  from assms have "n < length inp" by (cases "n < length inp") auto
  then have "length (take n inp) = n" by simp
  moreover from assms have "inp = take n inp @ D" by (metis append_take_drop_id)
  ultimately show ?thesis using that by blast
qed

text \<open>The prologue shared by the extraction operators: the pending obligations are resolved,
  then, in the lenient modes, inline whitespace is skipped.\<close>

lemma prologue_Done:
  assumes c: "conf inp m l d s n"
    and p: "and_then (read_delayed_unread_chars s) (\<lambda>_ s1. ignore_ws_if_lenient s1) = Done () s1"
  obtains s0 n1 where "read_delayed_unread_chars s = Done () s0"
    and "ignore_ws_if_lenient s0 = Done () s1" and "conf inp m l [] s1 n1"
proof -
  from p obtain s0 where r: "read_delayed_unread_chars s = Done () s0"
    and i: "ignore_ws_if_lenient s0 = Done () s1"
    by (cases "read_delayed_unread_chars s") (auto simp: and_then_def)
  from read_delayed_unread_chars_res [OF c] r obtain n0 where c0: "conf inp m l [] s0 n0"
    by auto
  have "\<exists>n1. conf inp m l [] s1 n1"
  proof (cases "m = TestInput")
    case True
    with c0 i show ?thesis by (auto simp: ignore_ws_if_lenient_def conf_def)
  next
    case False
    with c0 i have "scan_ignore_ws s0 = Done () s1"
      by (cases m) (auto simp: ignore_ws_if_lenient_def conf_def)
    then obtain s0' where r': "read_delayed_unread_chars s0 = Done () s0'"
      and w: "ignore_ws_loop s0' = Done () s1"
      by (cases "read_delayed_unread_chars s0") (auto simp: scan_ignore_ws_def and_then_def)
    from read_delayed_unread_chars_res [OF c0] r' obtain n0' where "conf inp m l [] s0' n0'"
      by auto
    from ignore_ws_loop_res [OF this] w show ?thesis by auto
  qed
  with r i that show ?thesis by blast
qed

lemma ignore_ws_loop_skip:
  assumes "conf inp m l d s n" and "n + k \<le> length inp"
    and "\<forall>i<k. isspace (of_char (inp ! (n + i))) \<and> (of_char (inp ! (n + i)) :: int) \<noteq> 10"
    and "n + k < length inp \<Longrightarrow>
           of_char (inp ! (n + k)) = (10::int) \<or> \<not> isspace (of_char (inp ! (n + k)))"
  shows "\<exists>s'. ignore_ws_loop s = Done () s' \<and> conf inp m l d s' (n + k)"
  using assms
proof (induction k arbitrary: s n)
  case 0
  from "0.prems" have a: "n \<le> length inp"
    and b: "n < length inp \<Longrightarrow> of_char (inp ! n) = (10::int) \<or> \<not> isspace (of_char (inp ! n))"
    by simp_all
  from ignore_ws_loop_stay [OF "0.prems"(1) a b] obtain s' where
    "ignore_ws_loop s = Done () s'" "conf inp m l d s' n" by blast
  then show ?case by auto
next
  case (Suc k)
  from Suc.prems have n: "n < length inp" by simp
  from getchar_conf_lt [OF Suc.prems(1) n] obtain s1 where
    g: "getchar s = (Some (of_char (inp ! n)), s1)" "conf inp m l d s1 (Suc n)"
    by blast
  from Suc.prems(3) have w: "isspace (of_char (inp ! n))" "(of_char (inp ! n) :: int) \<noteq> 10"
    by force+
  from Suc.prems(3) have rest: "\<forall>i<k. isspace (of_char (inp ! (Suc n + i)))
      \<and> (of_char (inp ! (Suc n + i)) :: int) \<noteq> 10" by force
  from Suc.prems(2) have len: "Suc n + k \<le> length inp" by simp
  from Suc.prems(4) have stop: "Suc n + k < length inp \<Longrightarrow>
      of_char (inp ! (Suc n + k)) = (10::int) \<or> \<not> isspace (of_char (inp ! (Suc n + k)))"
    by simp
  from Suc.IH [OF g(2) len rest stop] obtain s' where
    r: "ignore_ws_loop s1 = Done () s'" "conf inp m l d s' (Suc n + k)" by blast
  from g w have "ignore_ws_loop s = ignore_ws_loop s1"
    by (subst ignore_ws_loop.simps) simp
  with r show ?case by auto
qed

lemma prologue_skip:
  assumes c: "conf inp m l [] s n" and md: "k = 0 \<or> m \<noteq> TestInput" and len: "n + k \<le> length inp"
    and ws: "\<forall>i<k. isspace (of_char (inp ! (n + i))) \<and> (of_char (inp ! (n + i)) :: int) \<noteq> 10"
    and stop: "n + k < length inp \<Longrightarrow>
           of_char (inp ! (n + k)) = (10::int) \<or> \<not> isspace (of_char (inp ! (n + k)))"
  shows "\<exists>s1. and_then (read_delayed_unread_chars s) (\<lambda>_ s1. ignore_ws_if_lenient s1) = Done () s1
            \<and> conf inp m l [] s1 (n + k)"
proof -
  from read_delayed_unread_chars_empty [OF c] obtain s0 where
    r: "read_delayed_unread_chars s = Done () s0" and c0: "conf inp m l [] s0 n" by blast
  show ?thesis
  proof (cases "m = TestInput")
    case True
    with md have k: "k = 0" by simp
    from True c0 have "ignore_ws_if_lenient s0 = Done () s0"
      by (simp add: ignore_ws_if_lenient_def conf_def)
    with r c0 k show ?thesis by (simp add: and_then_def)
  next
    case False
    from read_delayed_unread_chars_empty [OF c0] obtain s0' where
      r': "read_delayed_unread_chars s0 = Done () s0'" and c0': "conf inp m l [] s0' n" by blast
    from ignore_ws_loop_skip [OF c0' len ws stop] obtain s1 where
      w: "ignore_ws_loop s0' = Done () s1" and c1: "conf inp m l [] s1 (n + k)" by blast
    from False c0 r' w have "ignore_ws_if_lenient s0 = Done () s1"
      by (cases m) (auto simp: ignore_ws_if_lenient_def scan_ignore_ws_def and_then_def conf_def)
    with r c1 show ?thesis by (simp add: and_then_def)
  qed
qed

text \<open>Leading inline whitespace \<open>ws\<close> before an item that is not whitespace, at a scanner with
  no pending obligation.\<close>

lemma prologue_skip_blanks:
  assumes c: "conf inp m l [] s n" and md: "ws = [] \<or> m \<noteq> TestInput"
    and inp: "drop n inp = ws @ y # rest"
    and ws: "\<forall>w\<in>set ws. isspace (of_char w) \<and> (of_char w :: int) \<noteq> 10"
    and y: "\<not> isspace (of_char y)"
  shows "\<exists>s1. and_then (read_delayed_unread_chars s) (\<lambda>_ s1. ignore_ws_if_lenient s1) = Done () s1
            \<and> conf inp m l [] s1 (n + length ws) \<and> drop (consumed inp s1) inp = y # rest"
proof -
  from inp have "ws @ y # rest \<noteq> []" by simp
  from cursor_split [OF inp this] obtain before where
    b: "inp = before @ ws @ y # rest" and lb: "length before = n" by blast
  from md have md': "length ws = 0 \<or> m \<noteq> TestInput" by simp
  from b lb have len: "n + length ws \<le> length inp" by simp
  from b lb ws have w: "\<forall>i<length ws. isspace (of_char (inp ! (n + i)))
      \<and> (of_char (inp ! (n + i)) :: int) \<noteq> 10"
    by (auto simp: nth_append)
  from b lb y have stop: "n + length ws < length inp \<Longrightarrow>
      of_char (inp ! (n + length ws)) = (10::int) \<or> \<not> isspace (of_char (inp ! (n + length ws)))"
    by (simp add: nth_append)
  from prologue_skip [OF c md' len w stop] obtain s1 where
    p: "and_then (read_delayed_unread_chars s) (\<lambda>_ s1. ignore_ws_if_lenient s1) = Done () s1"
    and c1: "conf inp m l [] s1 (n + length ws)" by blast
  from b lb have "drop (n + length ws) inp = y # rest" by simp
  with conf_consumed [OF c1] p c1 show ?thesis by auto
qed

subsection \<open>Reading an integer at any cursor\<close>

lemma scan_integer_overflow_at:
  assumes c: "conf (before @ sign_text is_minus @ pre @ c # rest) m l d s (length before)"
    and pre: "pre \<noteq> []" "\<forall>c\<in>set pre. isdigit (of_char c)" and dc: "isdigit (of_char c)"
    and sg: "is_minus \<Longrightarrow> \<not> is_unsigned T"
    and fit: "fits T (with_sign is_minus (decimal_value pre))"
    and over: "\<not> fits T (with_sign is_minus (decimal_value (pre @ [c])))"
  shows "\<exists>s'. scan_integer T s = Failed [integer_value_out_of_range l] s'
            \<and> conf (before @ sign_text is_minus @ pre @ c # rest) m l d s'
                 (Suc (length before + length (sign_text is_minus) + length pre))"
proof -
  let ?sg = "sign_text is_minus"
  let ?k = "length before + length ?sg"
  let ?inp = "before @ ?sg @ pre @ c # rest"
  from pre obtain c0 p where p: "pre = c0 # p" by (cases pre) auto
  from pre p have c0: "isdigit (of_char c0)" by simp
  have inp: "?inp = before @ ?sg @ c0 # (p @ c # rest)" by (simp add: p)
  from scan_integer_start [OF c inp _ c0 sg] obtain s3 where
    si: "scan_integer T s = digits_loop T is_minus (with_sign is_minus (of_char c0 - 48)) s3"
    and c3: "conf ?inp m l d s3 (Suc ?k)" by auto
  have tk: "take (length p) (drop (Suc ?k) ?inp) = p"
    "take (Suc (length p)) (drop (Suc ?k) ?inp) = p @ [c]" by (simp_all add: p)
  from pre p dc have dg: "\<forall>i\<le>length p. isdigit (of_char (?inp ! (Suc ?k + i)))"
    by (auto simp: nth_append nth_Cons')
  from c0 have v0: "0 \<le> (of_char c0 :: int) - 48" by (simp add: isdigit_def)
  have val: "(of_char c0 - 48) * 10 ^ length p + decimal_value (take (length p) (drop (Suc ?k) ?inp))
               = decimal_value pre"
    by (simp only: tk) (simp add: p)
  have val': "(of_char c0 - 48) * 10 ^ Suc (length p)
                + decimal_value (take (Suc (length p)) (drop (Suc ?k) ?inp))
               = decimal_value (pre @ [c])"
    by (simp only: tk) (simp add: p)
  have len: "Suc ?k + length p < length ?inp" by (simp add: p)
  from fit val have b1: "fits T (with_sign is_minus ((of_char c0 - 48) * 10 ^ length p
      + decimal_value (take (length p) (drop (Suc ?k) ?inp))))" by simp
  from over val' have b2: "\<not> fits T (with_sign is_minus ((of_char c0 - 48) * 10 ^ Suc (length p)
      + decimal_value (take (Suc (length p)) (drop (Suc ?k) ?inp))))" by simp
  from digits_loop_overflow [OF c3 len dg v0 b1 b2] obtain s' where
    dl: "digits_loop T is_minus (with_sign is_minus (of_char c0 - 48)) s3
           = Failed [integer_value_out_of_range l] s'"
    and c': "conf ?inp m l d s' (Suc (Suc ?k + length p))" by auto
  from si dl have "scan_integer T s = Failed [integer_value_out_of_range l] s'" by simp
  with c' p show ?thesis by auto
qed

lemma scan_integer_ok_at:
  assumes c: "conf (before @ sign_text is_minus @ ds @ rest) m l d s (length before)"
    and ds: "ds \<noteq> []" "\<forall>c\<in>set ds. isdigit (of_char c)"
    and rest: "rest = [] \<or> \<not> isdigit (of_char (hd rest))"
    and sg: "is_minus \<Longrightarrow> \<not> is_unsigned T"
    and fit: "fits T (with_sign is_minus (decimal_value ds))"
  shows "\<exists>s'. scan_integer T s = Done (with_sign is_minus (decimal_value ds)) s'
            \<and> conf (before @ sign_text is_minus @ ds @ rest) m l d s'
                 (length before + length (sign_text is_minus) + length ds)"
proof -
  let ?sg = "sign_text is_minus"
  let ?k = "length before + length ?sg"
  let ?inp = "before @ ?sg @ ds @ rest"
  from ds obtain c0 p where p: "ds = c0 # p" by (cases ds) auto
  from ds p have c0: "isdigit (of_char c0)" by simp
  have inp: "?inp = before @ ?sg @ c0 # (p @ rest)" by (simp add: p)
  from scan_integer_start [OF c inp _ c0 sg] obtain s3 where
    si: "scan_integer T s = digits_loop T is_minus (with_sign is_minus (of_char c0 - 48)) s3"
    and c3: "conf ?inp m l d s3 (Suc ?k)" by auto
  have tk: "take (length p) (drop (Suc ?k) ?inp) = p" by (simp add: p)
  from ds p have dg: "\<forall>i<length p. isdigit (of_char (?inp ! (Suc ?k + i)))"
    by (auto simp: nth_append)
  from rest p have stop: "Suc ?k + length p < length ?inp \<Longrightarrow>
      \<not> isdigit (of_char (?inp ! (Suc ?k + length p)))"
    by (cases rest) (auto simp: nth_append)
  from c0 have v0: "0 \<le> (of_char c0 :: int) - 48" by (simp add: isdigit_def)
  have val: "(of_char c0 - 48) * 10 ^ length p + decimal_value (take (length p) (drop (Suc ?k) ?inp))
               = decimal_value ds"
    by (simp only: tk) (simp add: p)
  from fit val have up: "fits T (with_sign is_minus ((of_char c0 - 48) * 10 ^ length p
      + decimal_value (take (length p) (drop (Suc ?k) ?inp))))" by simp
  have len: "Suc ?k + length p \<le> length ?inp" by (simp add: p)
  from digits_loop_ok [OF c3 len dg stop v0 up] val obtain s' where
    dl: "digits_loop T is_minus (with_sign is_minus (of_char c0 - 48)) s3
           = Done (with_sign is_minus (decimal_value ds)) s'"
    and c': "conf ?inp m l d s' (Suc ?k + length p)" by auto
  from si dl have "scan_integer T s = Done (with_sign is_minus (decimal_value ds)) s'" by simp
  with c' p show ?thesis by auto
qed

text \<open>\<^verbatim>\<open>operator>>(Num<T>)\<close> on a scanner whose prologue leaves the cursor at a number.\<close>

lemma scan_Num_overflow_at:
  assumes c: "conf inp m l d s n"
    and pro: "and_then (read_delayed_unread_chars s) (\<lambda>_ s1. ignore_ws_if_lenient s1) = Done () s1"
    and inp: "drop (consumed inp s1) inp = sign_text is_minus @ pre @ c # rest"
    and pre: "pre \<noteq> []" "\<forall>c\<in>set pre. isdigit (of_char c)" and dc: "isdigit (of_char c)"
    and sg: "is_minus \<Longrightarrow> \<not> is_unsigned T"
    and fit: "fits T (with_sign is_minus (decimal_value pre))"
    and over: "\<not> fits T (with_sign is_minus (decimal_value (pre @ [c])))"
    and mm: "min_val \<le> max_val"
  shows "\<exists>s'. scan_Num T min_val max_val s = Failed [integer_value_out_of_range l] s'
            \<and> conf inp m l [] s' (Suc (consumed inp s1 + length (sign_text is_minus) + length pre))"
proof -
  let ?D = "sign_text is_minus @ pre @ c # rest"
  from prologue_Done [OF c pro] obtain s0 n1 where
    r: "read_delayed_unread_chars s = Done () s0" and i: "ignore_ws_if_lenient s0 = Done () s1"
    and c1: "conf inp m l [] s1 n1" by blast
  note n1 = conf_consumed [OF c1]
  have "?D \<noteq> []" by simp
  from cursor_split [OF inp this] obtain before where
    b: "inp = before @ ?D" and lb: "length before = consumed inp s1" by blast
  from c1 have "conf (before @ ?D) m l [] s1 (length before)"
    by (simp only: b [symmetric] lb n1)
  from scan_integer_overflow_at [OF this pre dc sg fit over] obtain s' where
    si: "scan_integer T s1 = Failed [integer_value_out_of_range l] s'"
    and c': "conf (before @ ?D) m l [] s'
               (Suc (length before + length (sign_text is_minus) + length pre))" by blast
  from c' have "conf inp m l [] s' (Suc (consumed inp s1 + length (sign_text is_minus) + length pre))"
    by (simp only: b [symmetric] lb)
  moreover from r i si mm have "scan_Num T min_val max_val s = Failed [integer_value_out_of_range l] s'"
    by (simp add: scan_Num_def and_then_def)
  ultimately show ?thesis by blast
qed

lemma scan_Num_ok_at:
  assumes c: "conf inp m l d s n"
    and pro: "and_then (read_delayed_unread_chars s) (\<lambda>_ s1. ignore_ws_if_lenient s1) = Done () s1"
    and inp: "drop (consumed inp s1) inp = sign_text is_minus @ ds @ rest"
    and ds: "ds \<noteq> []" "\<forall>c\<in>set ds. isdigit (of_char c)"
    and rest: "rest = [] \<or> \<not> isdigit (of_char (hd rest))"
    and sg: "is_minus \<Longrightarrow> \<not> is_unsigned T"
    and fit: "fits T (with_sign is_minus (decimal_value ds))"
    and bounds: "min_val \<le> with_sign is_minus (decimal_value ds)"
      "with_sign is_minus (decimal_value ds) \<le> max_val"
  shows "\<exists>s'. scan_Num T min_val max_val s = Done (with_sign is_minus (decimal_value ds)) s'
            \<and> conf inp m l [] s' (consumed inp s1 + length (sign_text is_minus) + length ds)"
proof -
  let ?D = "sign_text is_minus @ ds @ rest"
  from prologue_Done [OF c pro] obtain s0 n1 where
    r: "read_delayed_unread_chars s = Done () s0" and i: "ignore_ws_if_lenient s0 = Done () s1"
    and c1: "conf inp m l [] s1 n1" by blast
  note n1 = conf_consumed [OF c1]
  from ds have "?D \<noteq> []" by simp
  from cursor_split [OF inp this] obtain before where
    b: "inp = before @ ?D" and lb: "length before = consumed inp s1" by blast
  from c1 have "conf (before @ ?D) m l [] s1 (length before)"
    by (simp only: b [symmetric] lb n1)
  from scan_integer_ok_at [OF this ds rest sg fit] obtain s' where
    si: "scan_integer T s1 = Done (with_sign is_minus (decimal_value ds)) s'"
    and c': "conf (before @ ?D) m l [] s'
               (length before + length (sign_text is_minus) + length ds)" by blast
  from c' have "conf inp m l [] s' (consumed inp s1 + length (sign_text is_minus) + length ds)"
    by (simp only: b [symmetric] lb)
  moreover from bounds have "min_val \<le> max_val" by simp
  with r i si bounds
  have "scan_Num T min_val max_val s = Done (with_sign is_minus (decimal_value ds)) s'"
    by (simp add: scan_Num_def and_then_def)
  ultimately show ?thesis by blast
qed

subsection \<open>Reading a token at any cursor\<close>

lemma scan_Str_start_at:
  assumes c: "conf inp m l d s n"
    and pro: "and_then (read_delayed_unread_chars s) (\<lambda>_ s1. ignore_ws_if_lenient s1) = Done () s1"
    and inp: "drop (consumed inp s1) inp = c0 # after"
    and ns: "\<not> isspace (of_char c0)" and sz: "0 < max_size"
  obtains s3 where "scan_Str max_size s = Str_loop max_size [] (of_char c0) s3"
    and "conf inp m l [] s3 (Suc (consumed inp s1))"
proof -
  from prologue_Done [OF c pro] obtain s0 n1 where
    r: "read_delayed_unread_chars s = Done () s0" and i: "ignore_ws_if_lenient s0 = Done () s1"
    and c1: "conf inp m l [] s1 n1" by blast
  note n1 = conf_consumed [OF c1]
  have "c0 # after \<noteq> []" by simp
  from cursor_split [OF inp this] obtain before where
    b: "inp = before @ c0 # after" and lb: "length before = consumed inp s1" by blast
  from lb n1 have nb: "n1 = length before" by simp
  from b have lt: "n1 < length inp" and at: "inp ! n1 = c0" unfolding nb by simp_all
  from getchar_conf_lt [OF c1 lt] at obtain s3 where
    g: "getchar s1 = (Some (of_char c0), s3)" "conf inp m l [] s3 (Suc n1)"
    by auto
  from r i g ns sz have "scan_Str max_size s = Str_loop max_size [] (of_char c0) s3"
    by (simp add: scan_Str_def and_then_def)
  with g n1 that show ?thesis by simp
qed

lemma scan_Str_too_long_at:
  assumes c: "conf inp m l d s n"
    and pro: "and_then (read_delayed_unread_chars s) (\<lambda>_ s1. ignore_ws_if_lenient s1) = Done () s1"
    and inp: "drop (consumed inp s1) inp = tok @ rest"
    and sz: "0 < max_size" and ns: "\<forall>c\<in>set tok. \<not> isspace (of_char c)"
    and len: "length tok = Suc max_size"
  shows "\<exists>s'. scan_Str max_size s = Failed [too_long_string l] s'
            \<and> conf inp m l [] s' (consumed inp s1 + Suc max_size)"
proof -
  let ?n = "consumed inp s1"
  from len obtain c0 p where p: "tok = c0 # p" by (cases tok) auto
  from ns p have ns0: "\<not> isspace (of_char c0)" by simp
  from inp p have inp0: "drop ?n inp = c0 # (p @ rest)" by simp
  from scan_Str_start_at [OF c pro inp0 ns0 sz] obtain s3 where
    st: "scan_Str max_size s = Str_loop max_size [] (of_char c0) s3"
    and c3: "conf inp m l [] s3 (Suc ?n)" by blast
  from inp have "tok @ rest \<noteq> []" using len by auto
  from cursor_split [OF inp this] obtain before where
    b: "inp = before @ tok @ rest" and lb: "length before = ?n" by blast
  from b lb len have le: "Suc ?n + max_size \<le> length inp" by simp
  from b lb ns len have dg: "\<forall>i<max_size. \<not> isspace (of_char (inp ! (Suc ?n + i)))"
    by (auto simp: nth_append)
  have l0: "length ([]::string) + max_size = max_size" by simp
  from Str_loop_too_long [where var = "[]" and ch = "of_char c0", OF c3 l0 le dg] obtain s' where
    r: "Str_loop max_size [] (of_char c0) s3 = Failed [too_long_string l] s'"
    and c': "conf inp m l [] s' (Suc ?n + max_size)" by auto
  from st r c' show ?thesis by auto
qed

lemma scan_Str_ok_at:
  assumes c: "conf inp m l d s n"
    and pro: "and_then (read_delayed_unread_chars s) (\<lambda>_ s1. ignore_ws_if_lenient s1) = Done () s1"
    and inp: "drop (consumed inp s1) inp = tok @ rest"
    and sz: "0 < max_size" and ns: "\<forall>c\<in>set tok. \<not> isspace (of_char c)"
    and tok: "tok \<noteq> []" "length tok \<le> max_size"
    and rest: "rest = [] \<or> isspace (of_char (hd rest))"
  shows "\<exists>s'. scan_Str max_size s = Done tok s' \<and> conf inp m l [] s' (consumed inp s1 + length tok)"
proof -
  let ?n = "consumed inp s1"
  from tok obtain c0 p where p: "tok = c0 # p" by (cases tok) auto
  from ns p have ns0: "\<not> isspace (of_char c0)" by simp
  from inp p have inp0: "drop ?n inp = c0 # (p @ rest)" by simp
  from scan_Str_start_at [OF c pro inp0 ns0 sz] obtain s3 where
    st: "scan_Str max_size s = Str_loop max_size [] (of_char c0) s3"
    and c3: "conf inp m l [] s3 (Suc ?n)" by blast
  from tok have "tok @ rest \<noteq> []" by simp
  from cursor_split [OF inp this] obtain before where
    b: "inp = before @ tok @ rest" and lb: "length before = ?n" by blast
  from b lb p have le: "Suc ?n + length p \<le> length inp" by simp
  from b lb ns p have dg: "\<forall>i<length p. \<not> isspace (of_char (inp ! (Suc ?n + i)))"
    by (auto simp: nth_append)
  from b lb p rest have stop: "Suc ?n + length p < length inp \<Longrightarrow>
      isspace (of_char (inp ! (Suc ?n + length p)))"
    by (cases rest) (auto simp: nth_append)
  from tok p have sz': "length ([]::string) + length p < max_size" by simp
  from b lb p have tk: "take (length p) (drop (Suc ?n) inp) = p" by simp
  from Str_loop_ok [where ch = "of_char c0", OF c3 sz' le dg stop] obtain s' where
    r: "Str_loop max_size [] (of_char c0) s3
          = Done ([] @ char_of (of_char c0 :: int) # take (length p) (drop (Suc ?n) inp)) s'"
    and c': "conf inp m l [] s' (Suc ?n + length p)" by blast
  from r tk p have "Str_loop max_size [] (of_char c0) s3 = Done tok s'" by simp
  with st c' p show ?thesis by auto
qed

subsection \<open>Scanners reached by successful calls\<close>

lemma reached_conf:
  assumes "run_calls F cs (new_Scanner inp m l) = Done vs s"
  obtains d n where "conf inp m l d s n"
  using run_calls_new_Scanner [of inp m l F cs] assms by (auto simp: res_conf_def)

lemma reached_conf_empty:
  assumes "run_calls F cs (new_Scanner inp m l) = Done vs s" and "delayed_unread_chars s = []"
  shows "conf inp m l [] s (consumed inp s)"
proof -
  from reached_conf [OF assms(1)] obtain d n where c: "conf inp m l d s n" by blast
  with assms(2) conf_fields [OF c] conf_consumed [OF c] show ?thesis by simp
qed

lemma run_calls_append:
  "run_calls F (cs @ cs') s =
     and_then (run_calls F cs s) (\<lambda>vs s1. and_then (run_calls F cs' s1) (\<lambda>ws s2. Done (vs @ ws) s2))"
proof (induction cs arbitrary: s)
  case Nil
  show ?case by (cases "run_calls F cs' s") (simp_all add: and_then_def)
next
  case (Cons c cs)
  show ?case
  proof (cases "run_call F c s")
    case (Done v s1)
    with Cons [of s1] show ?thesis
      by (cases "run_calls F cs s1") (auto simp: and_then_def split: result.splits)
  qed (simp_all add: and_then_def)
qed

lemma number_starts_nonspace:
  assumes "ds \<noteq> []" and "\<forall>c\<in>set ds. isdigit (of_char c)"
  shows "\<exists>y r. sign_text is_minus @ ds @ rest = y # r \<and> \<not> isspace (of_char y)"
proof (cases is_minus)
  case True
  then show ?thesis by (simp add: sign_text_def isspace_def)
next
  case False
  from assms obtain c0 p where "ds = c0 # p" "isdigit (of_char c0)" by (cases ds) auto
  with False show ?thesis by (auto simp: sign_text_def dest: isdigit_not_isspace)
qed

subsection \<open>Whitespace literals against the bytes of the input\<close>

lemma ignore_ws_if_lenient_skip:
  assumes c: "conf inp m l [] s n" and m: "m \<noteq> TestInput" and len: "n + k \<le> length inp"
    and ws: "\<forall>i<k. isspace (of_char (inp ! (n + i))) \<and> (of_char (inp ! (n + i)) :: int) \<noteq> 10"
    and stop: "n + k < length inp \<Longrightarrow>
           of_char (inp ! (n + k)) = (10::int) \<or> \<not> isspace (of_char (inp ! (n + k)))"
  shows "\<exists>s'. ignore_ws_if_lenient s = Done () s' \<and> conf inp m l [] s' (n + k)"
proof -
  from read_delayed_unread_chars_empty [OF c] obtain s0 where
    r: "read_delayed_unread_chars s = Done () s0" and c0: "conf inp m l [] s0 n" by blast
  from ignore_ws_loop_skip [OF c0 len ws stop] obtain s1 where
    w: "ignore_ws_loop s0 = Done () s1" and c1: "conf inp m l [] s1 (n + k)" by blast
  from m c r w have "ignore_ws_if_lenient s = Done () s1"
    by (cases m) (auto simp: ignore_ws_if_lenient_def scan_ignore_ws_def and_then_def conf_def)
  with c1 show ?thesis by blast
qed

text \<open>More blanks than obligations: the obligations take one byte each, the prologue of the
  next extraction skips the other blanks.\<close>

lemma scan_char_after_whitespace_queue_skip:
  assumes c: "conf inp m l (replicate k WHITESPACE) s n" and m: "m \<noteq> TestInput"
    and len: "n + k + e < length inp"
    and ws: "\<forall>i<k + e. isspace (of_char (inp ! (n + i))) \<and> (of_char (inp ! (n + i)) :: int) \<noteq> 10"
    and x: "of_char (inp ! (n + k + e)) = c" and ns: "\<not> isspace c"
  shows "\<exists>s1 s'. read_delayed_unread_chars s = Done () s1 \<and> conf inp m l [] s1 (n + k)
            \<and> scan_char c s = Done () s' \<and> conf inp m l [] s' (Suc (n + k + e))"
proof -
  from len have len': "n + k \<le> length inp" by simp
  from ws have ws1: "\<forall>i<k. isspace (of_char (inp ! (n + i))) \<and> (of_char (inp ! (n + i)) :: int) \<noteq> 10"
    by simp
  from read_delayed_whitespace [OF c m len' ws1] obtain s1 where
    r: "read_delayed (replicate k WHITESPACE) s = Done () s1"
    and c1: "conf inp m l (replicate k WHITESPACE) s1 (n + k)" by blast
  from c have d: "delayed_unread_chars s = replicate k WHITESPACE" by (simp add: conf_def)
  let ?s1 = "s1\<lparr>delayed_unread_chars := []\<rparr>"
  from r d have rd: "read_delayed_unread_chars s = Done () ?s1"
    by (simp add: read_delayed_unread_chars_def and_then_def)
  note c1' = conf_update_delayed [OF c1, of "[]"]
  from len have len2: "n + k + e \<le> length inp" by simp
  have ws2: "\<forall>i<e. isspace (of_char (inp ! (n + k + i))) \<and> (of_char (inp ! (n + k + i)) :: int) \<noteq> 10"
  proof (intro allI impI)
    fix i assume "i < e"
    then have "k + i < k + e" by simp
    with ws have "isspace (of_char (inp ! (n + (k + i))))
      \<and> (of_char (inp ! (n + (k + i))) :: int) \<noteq> 10" by blast
    then show "isspace (of_char (inp ! (n + k + i))) \<and> (of_char (inp ! (n + k + i)) :: int) \<noteq> 10"
      by (simp add: add.assoc)
  qed
  from x ns have stop: "n + k + e < length inp \<Longrightarrow>
      of_char (inp ! (n + k + e)) = (10::int) \<or> \<not> isspace (of_char (inp ! (n + k + e)))" by simp
  from ignore_ws_if_lenient_skip [OF c1' m len2 ws2 stop] obtain s2 where
    i: "ignore_ws_if_lenient ?s1 = Done () s2" and c2: "conf inp m l [] s2 (n + k + e)"
    by blast
  from getchar_conf_lt [OF c2 len] x obtain s3 where
    g: "getchar s2 = (Some c, s3)" and c3: "conf inp m l [] s3 (Suc (n + k + e))"
    by auto
  from c m ns have "\<not> enqueues (mode s) c"
    by (cases "mode s") (simp_all add: enqueues_def conf_def)
  with rd i g have "scan_char c s = Done () s3"
    by (simp add: scan_char_def and_then_def)
  with c3 rd c1' show ?thesis by blast
qed

text \<open>Fewer blanks than obligations: the obligation that meets the byte that is not
  whitespace fails there.\<close>

lemma read_delayed_too_few:
  assumes "conf inp m l d s n" and "m \<noteq> TestInput" and "j < k" and "n + j < length inp"
    and "\<forall>i<j. isspace (of_char (inp ! (n + i))) \<and> (of_char (inp ! (n + i)) :: int) \<noteq> 10"
    and "\<not> isspace (of_char (inp ! (n + j)))"
  shows "\<exists>s'. read_delayed (replicate k WHITESPACE) s
              = unexpected_char_error (of_char (inp ! (n + j))) [quote, CHR '' '', quote] s'
            \<and> conf inp m l d s' (Suc (n + j))"
  using assms
proof (induction j arbitrary: k s n)
  case 0
  then obtain k' where k: "k = Suc k'" by (cases k) auto
  from "0.prems" have n: "n < length inp" by simp
  from getchar_conf_lt [OF "0.prems"(1) n] obtain s1 where
    g: "getchar s = (Some (of_char (inp ! n)), s1)" "conf inp m l d s1 (Suc n)"
    by blast
  from "0.prems"(1,2) have "mode s \<noteq> TestInput" by (simp add: conf_def)
  with g "0.prems"(6) k have "read_delayed (replicate k WHITESPACE) s
      = unexpected_char_error (of_char (inp ! n)) [quote, CHR '' '', quote] s1"
    by (cases "mode s") (auto simp: do_read_char_def)
  with g show ?case by auto
next
  case (Suc j)
  then obtain k' where k: "k = Suc k'" and j: "j < k'" by (cases k) auto
  from Suc.prems have n: "n < length inp" by simp
  from getchar_conf_lt [OF Suc.prems(1) n] obtain s1 where
    g: "getchar s = (Some (of_char (inp ! n)), s1)" "conf inp m l d s1 (Suc n)"
    by blast
  from Suc.prems(5) have w: "isspace (of_char (inp ! n))" "(of_char (inp ! n) :: int) \<noteq> 10"
    by force+
  from Suc.prems(5) have rest: "\<forall>i<j. isspace (of_char (inp ! (Suc n + i)))
      \<and> (of_char (inp ! (Suc n + i)) :: int) \<noteq> 10" by force
  from Suc.prems(4) have len: "Suc n + j < length inp" by simp
  from Suc.prems(6) have x: "\<not> isspace (of_char (inp ! (Suc n + j)))" by simp
  from Suc.IH [OF g(2) Suc.prems(2) j len rest x] obtain s' where
    r: "read_delayed (replicate k' WHITESPACE) s1
          = unexpected_char_error (of_char (inp ! (Suc n + j))) [quote, CHR '' '', quote] s'"
      "conf inp m l d s' (Suc (Suc n + j))"
    by blast
  from Suc.prems(1,2) have "mode s \<noteq> TestInput" by (simp add: conf_def)
  with g w r k have "read_delayed (replicate k WHITESPACE) s
      = unexpected_char_error (of_char (inp ! (Suc n + j))) [quote, CHR '' '', quote] s'"
    by (cases "mode s") (auto simp: do_read_char_def)
  with r show ?case by auto
qed

lemma scan_char_too_few_blanks:
  assumes c: "conf inp m l (replicate k WHITESPACE) s n" and m: "m \<noteq> TestInput"
    and j: "j < k" and len: "n + j < length inp"
    and ws: "\<forall>i<j. isspace (of_char (inp ! (n + i))) \<and> (of_char (inp ! (n + i)) :: int) \<noteq> 10"
    and x: "\<not> isspace (of_char (inp ! (n + j)))" and ns: "\<not> isspace c"
  shows "\<exists>s'. scan_char c s
              = Failed (case l of
                   EN \<Rightarrow> [''Read '', char_description (of_char (inp ! (n + j))), '', expected '',
                          [quote, CHR '' '', quote]]
                 | PL \<Rightarrow> [''Wczytano '', char_description (of_char (inp ! (n + j))), '', oczekiwano '',
                          [quote, CHR '' '', quote]]) s'
            \<and> conf inp m l (replicate k WHITESPACE) s' (Suc (n + j))"
proof -
  from read_delayed_too_few [OF c m j len ws x] obtain s' where
    r: "read_delayed (replicate k WHITESPACE) s
          = unexpected_char_error (of_char (inp ! (n + j))) [quote, CHR '' '', quote] s'"
    and c': "conf inp m l (replicate k WHITESPACE) s' (Suc (n + j))" by blast
  from c have d: "delayed_unread_chars s = replicate k WHITESPACE" by (simp add: conf_def)
  from c m ns have "\<not> enqueues (mode s) c"
    by (cases "mode s") (simp_all add: enqueues_def conf_def)
  with r d conf_fields [OF c'] have "scan_char c s
              = Failed (case l of
                   EN \<Rightarrow> [''Read '', char_description (of_char (inp ! (n + j))), '', expected '',
                          [quote, CHR '' '', quote]]
                 | PL \<Rightarrow> [''Wczytano '', char_description (of_char (inp ! (n + j))), '', oczekiwano '',
                          [quote, CHR '' '', quote]]) s'"
    by (simp add: scan_char_def read_delayed_unread_chars_def and_then_def unexpected_char_error_def)
  with c' show ?thesis by blast
qed

text \<open>The mode TestInput: a literal is met by the byte equal to it, and by no other.\<close>

lemma scan_char_strict:
  assumes c: "conf inp TestInput l [] s n" and n: "n < length inp"
  shows "\<exists>s'. conf inp TestInput l [] s' (Suc n)
           \<and> scan_char c s =
               (if of_char (inp ! n) = c then Done () s'
                else Failed (case l of
                   EN \<Rightarrow> [''Read '', char_description (of_char (inp ! n)), '', expected '',
                          char_description c]
                 | PL \<Rightarrow> [''Wczytano '', char_description (of_char (inp ! n)), '', oczekiwano '',
                          char_description c]) s')"
proof -
  from read_delayed_unread_chars_empty [OF c] obtain s0 where
    r: "read_delayed_unread_chars s = Done () s0" and c0: "conf inp TestInput l [] s0 n" by blast
  from c0 have i: "ignore_ws_if_lenient s0 = Done () s0"
    by (simp add: ignore_ws_if_lenient_def conf_def)
  from getchar_conf_lt [OF c0 n] obtain s3 where
    g: "getchar s0 = (Some (of_char (inp ! n)), s3)" and c3: "conf inp TestInput l [] s3 (Suc n)"
    by blast
  from c have "\<not> enqueues (mode s) c" by (simp add: enqueues_def conf_def)
  with r i g conf_fields [OF c3] have "scan_char c s =
               (if of_char (inp ! n) = c then Done () s3
                else Failed (case l of
                   EN \<Rightarrow> [''Read '', char_description (of_char (inp ! n)), '', expected '',
                          char_description c]
                 | PL \<Rightarrow> [''Wczytano '', char_description (of_char (inp ! n)), '', oczekiwano '',
                          char_description c]) s3)"
    by (cases l) (auto simp: scan_char_def and_then_def)
  with c3 show ?thesis by blast
qed

lemma strict_literals_match:
  assumes "conf inp TestInput l [] s n" and "n + length lits \<le> length inp"
    and "\<forall>j<length lits. of_char (inp ! (n + j)) = lits ! j"
  shows "\<exists>s'. run_calls F (map CharLit lits @ after) s =
                and_then (run_calls F after s') (\<lambda>vs s2. Done (replicate (length lits) Unit @ vs) s2)
            \<and> conf inp TestInput l [] s' (n + length lits)"
  using assms
proof (induction lits arbitrary: s n)
  case Nil
  then show ?case
    by (intro exI [of _ s]) (simp add: and_then_Done_id)
next
  case (Cons a lits)
  from Cons.prems have n: "n < length inp" and a: "of_char (inp ! n) = a" by auto
  from scan_char_strict [OF Cons.prems(1) n, of a] a obtain s1 where
    e: "scan_char a s = Done () s1" and c1: "conf inp TestInput l [] s1 (Suc n)" by auto
  from Cons.prems(2) have len: "Suc n + length lits \<le> length inp" by simp
  from Cons.prems(3) have rest: "\<forall>j<length lits. of_char (inp ! (Suc n + j)) = lits ! j" by force
  from Cons.IH [OF c1 len rest] obtain s' where
    r: "run_calls F (map CharLit lits @ after) s1 =
          and_then (run_calls F after s') (\<lambda>vs s2. Done (replicate (length lits) Unit @ vs) s2)"
    and c': "conf inp TestInput l [] s' (Suc n + length lits)" by blast
  from e r have "run_calls F (map CharLit (a # lits) @ after) s =
      and_then (run_calls F after s') (\<lambda>vs s2. Done (replicate (length (a # lits)) Unit @ vs) s2)"
    by (cases "run_calls F after s'") (simp_all add: run_call_def and_then_def)
  with c' show ?case by auto
qed

lemma cursor_nth:
  assumes "inp = before @ ws @ x # rest" and "length before = n"
  shows "n + length ws < length inp" and "inp ! (n + length ws) = x"
    and "\<And>i. i < length ws \<Longrightarrow> inp ! (n + i) = ws ! i"
  using assms by (auto simp: nth_append)

section \<open>Checker verdict: rejection after a partial score\<close>

text \<open>
  Claim C1, as stated, at the call \<^verbatim>\<open>exit_wrong("")\<close> after \<^verbatim>\<open>set_partial_score(42, "a")\<close>:
  the message of \<^verbatim>\<open>exit_wrong\<close> is empty, so the claim promises the output without the
  separator; the code tests the number of arguments, finds one, and prints the separator.
\<close>

theorem exit_wrong_empty_string_keeps_separator:
  "set_partial_score 42 [''a''] checker_verdict = Inr \<lparr>partial_score = Some 42, partial_score_msg = ''a''\<rparr>
   \<and> exit_wrong \<lparr>partial_score = Some 42, partial_score_msg = ''a''\<rparr> [[]] =
       Exit 0 Cout ''OK\<newline>a; \<newline>42\<newline>''
   \<and> exit_wrong \<lparr>partial_score = Some 42, partial_score_msg = ''a''\<rparr> [[]] \<noteq>
       Exit 0 Cout ''OK\<newline>a\<newline>42\<newline>''"
  by (simp add: set_partial_score_def checker_verdict_def exit_wrong_def show_int_def
      show_nat.simps digit_char_def)

text \<open>
  Claim C1, amended: \<^verbatim>\<open>exit_wrong(msg...)\<close> after a partial score was stored by
  \<^verbatim>\<open>set_partial_score(score, partial_msg...)\<close> ends the process with exit code 0 and prints
  \<^verbatim>\<open>OK\<close>, then the stored message, the arguments of \<^verbatim>\<open>exit_wrong\<close> and the score, where the
  separator \<^verbatim>\<open>"; "\<close> is left out exactly when the stored message is empty or \<^verbatim>\<open>exit_wrong\<close>
  is called with no argument at all. With no partial score stored it prints \<^verbatim>\<open>WRONG\<close>, the
  message and 0. In particular \<^verbatim>\<open>set_partial_score(42, "a")\<close> followed by \<^verbatim>\<open>exit_wrong("b")\<close>
  prints \<^verbatim>\<open>"OK\na; b\n42\n"\<close>.
\<close>

theorem exit_wrong_after_set_partial_score:
  "(set_partial_score score partial_msg cv = Inr cv' \<longrightarrow>
      exit_wrong cv' msg =
        Exit 0 Cout (''OK\<newline>'' @ concat partial_msg
          @ (if concat partial_msg = [] \<or> msg = [] then [] else ''; '')
          @ concat msg @ ''\<newline>'' @ show_int score @ ''\<newline>''))
   \<and> exit_wrong checker_verdict msg = Exit 0 Cout (''WRONG\<newline>'' @ concat msg @ ''\<newline>0\<newline>'')
   \<and> (set_partial_score 42 [''a''] checker_verdict = Inr cv' \<longrightarrow>
      exit_wrong cv' [''b''] = Exit 0 Cout ''OK\<newline>a; b\<newline>42\<newline>'')"
proof (intro conjI impI)
  assume "set_partial_score score partial_msg cv = Inr cv'"
  then show "exit_wrong cv' msg =
        Exit 0 Cout (''OK\<newline>'' @ concat partial_msg
          @ (if concat partial_msg = [] \<or> msg = [] then [] else ''; '')
          @ concat msg @ ''\<newline>'' @ show_int score @ ''\<newline>'')"
    by (auto simp: set_partial_score_def exit_wrong_def split: if_splits)
next
  show "exit_wrong checker_verdict msg = Exit 0 Cout (''WRONG\<newline>'' @ concat msg @ ''\<newline>0\<newline>'')"
    by (simp add: checker_verdict_def exit_wrong_def)
next
  assume "set_partial_score 42 [''a''] checker_verdict = Inr cv'"
  then have "cv' = \<lparr>partial_score = Some 42, partial_score_msg = ''a''\<rparr>"
    by (simp add: set_partial_score_def checker_verdict_def)
  then show "exit_wrong cv' [''b''] = Exit 0 Cout ''OK\<newline>a; b\<newline>42\<newline>''"
    by (simp add: exit_wrong_def show_int_def show_nat.simps digit_char_def)
qed

theorem exit_wrong_after_set_partial_score_witness:
  "set_partial_score 42 [''a''] checker_verdict = Inr \<lparr>partial_score = Some 42, partial_score_msg = ''a''\<rparr>
   \<and> exit_wrong \<lparr>partial_score = Some 42, partial_score_msg = ''a''\<rparr> [''b''] =
       Exit 0 Cout (''OK\<newline>'' @ concat [''a''] @ ''; '' @ concat [''b''] @ ''\<newline>'' @ show_int 42 @ ''\<newline>'')"
proof -
  have h: "set_partial_score 42 [''a''] checker_verdict =
             Inr \<lparr>partial_score = Some 42, partial_score_msg = ''a''\<rparr>"
    by (simp add: set_partial_score_def checker_verdict_def)
  from exit_wrong_after_set_partial_score
         [of 42 "[''a'']" checker_verdict "\<lparr>partial_score = Some 42, partial_score_msg = ''a''\<rparr>" "[''b'']"] h
  show ?thesis by simp
qed

section \<open>Finalization at release and before a success verdict\<close>

text \<open>
  Claim C2: releasing a scanner in the mode TestInput or UserOutput runs the end-of-stream
  match on it, and so does every success verdict on each scanner still registered, in the
  order of the registry and up to the first failure: the checker's \<^verbatim>\<open>exit_ok\<close>,
  \<^verbatim>\<open>exit_ok_with_score\<close> with score 100 and the verifier's \<^verbatim>\<open>exit_ok\<close> print their verdict
  exactly when the match succeeds on every such scanner, and otherwise end the process with
  the outcome of the release of a failing one (\<^verbatim>\<open>exit_ok_with_score\<close> with a score below 100
  is not a full success and looks at no scanner). In particular a TestInput scanner, reached
  by any successful calls, that still has an unread byte (whitespace or not) ends the
  process on release with exit code 1 and the message "Read ..., expected EOF" at the
  position of that byte, though the tool never matched the end of the stream.
\<close>

theorem release_and_success_verdicts_check_end_of_stream:
  "(mode s = TestInput \<or> mode s = UserOutput \<longrightarrow>
      do_destructor_checks s = scan_eof s \<and> Scanner_destructor cv s = outcome_of cv (scan_eof s))
   \<and> ((\<forall>t\<in>set scanners. mode t = Lax \<or> (\<exists>t'. scan_eof t = Done () t')) \<longrightarrow>
        exit_ok cv scanners = Exit 0 Cout ''OK\<newline>\<newline>100\<newline>''
        \<and> exit_ok_with_score cv scanners 100 msg
            = Exit 0 Cout (''OK\<newline>'' @ concat msg @ ''\<newline>100\<newline>'')
        \<and> InwerVerdict_Stream 0 cv scanners msg = StreamImpl_exit 0 msg)
   \<and> (\<not> (\<forall>t\<in>set scanners. mode t = Lax \<or> (\<exists>t'. scan_eof t = Done () t')) \<longrightarrow>
        (\<exists>t\<in>set scanners. \<exists>out. (mode t = TestInput \<or> mode t = UserOutput)
           \<and> Scanner_destructor cv t = Some out
           \<and> exit_ok cv scanners = out
           \<and> exit_ok_with_score cv scanners 100 msg = out
           \<and> InwerVerdict_Stream 0 cv scanners msg = out))
   \<and> (score \<noteq> 100 \<longrightarrow>
        exit_ok_with_score cv scanners score msg = exit_ok_with_score cv [] score msg)
   \<and> (run_calls F cs (new_Scanner inp TestInput l) = Done vs s \<and> consumed inp s < length inp \<longrightarrow>
        Scanner_destructor cv s =
           Some (Exit 1 Cout
             ((case l of EN \<Rightarrow> ''Line '' | PL \<Rightarrow> ''Wiersz '')
              @ show_nat (line (pos_after inp (consumed inp s)))
              @ (case l of EN \<Rightarrow> '', position '' | PL \<Rightarrow> '', pozycja '')
              @ show_nat (pos (pos_after inp (consumed inp s))) @ '': ''
              @ (case l of EN \<Rightarrow> ''Read '' | PL \<Rightarrow> ''Wczytano '')
              @ char_description (of_char (inp ! consumed inp s))
              @ (case l of EN \<Rightarrow> '', expected EOF'' | PL \<Rightarrow> '', oczekiwano EOF'')
              @ ''\<newline>'')))"
proof (intro conjI impI)
  assume "mode s = TestInput \<or> mode s = UserOutput"
  then show "do_destructor_checks s = scan_eof s"
    and "Scanner_destructor cv s = outcome_of cv (scan_eof s)"
    by (auto simp: do_destructor_checks_def Scanner_destructor_def)
next
  assume "\<forall>t\<in>set scanners. mode t = Lax \<or> (\<exists>t'. scan_eof t = Done () t')"
  then have n: "all_destructor_checks cv scanners = None"
    by (simp add: all_destructor_checks_None)
  then show "exit_ok cv scanners = Exit 0 Cout ''OK\<newline>\<newline>100\<newline>''"
    by (simp add: exit_ok_def)
  from n show "exit_ok_with_score cv scanners 100 msg
            = Exit 0 Cout (''OK\<newline>'' @ concat msg @ ''\<newline>100\<newline>'')"
    by (simp add: exit_ok_with_score_def show_int_def show_nat.simps digit_char_def)
  from n show "InwerVerdict_Stream 0 cv scanners msg = StreamImpl_exit 0 msg"
    by (simp add: InwerVerdict_Stream_def)
next
  assume "\<not> (\<forall>t\<in>set scanners. mode t = Lax \<or> (\<exists>t'. scan_eof t = Done () t'))"
  then have "all_destructor_checks cv scanners \<noteq> None"
    by (simp add: all_destructor_checks_None)
  then obtain out where o: "all_destructor_checks cv scanners = Some out" by auto
  from all_destructor_checks_Some [OF o] obtain t where
    t: "t \<in> set scanners" "mode t \<noteq> Lax" "Scanner_destructor cv t = Some out" by blast
  from t(2) have "mode t = TestInput \<or> mode t = UserOutput" by (cases "mode t") auto
  with o t show "\<exists>t\<in>set scanners. \<exists>out. (mode t = TestInput \<or> mode t = UserOutput)
           \<and> Scanner_destructor cv t = Some out
           \<and> exit_ok cv scanners = out
           \<and> exit_ok_with_score cv scanners 100 msg = out
           \<and> InwerVerdict_Stream 0 cv scanners msg = out"
    by (auto simp: exit_ok_def exit_ok_with_score_def InwerVerdict_Stream_def)
next
  assume "score \<noteq> 100"
  then show "exit_ok_with_score cv scanners score msg = exit_ok_with_score cv [] score msg"
    by (simp add: exit_ok_with_score_def)
next
  assume h: "run_calls F cs (new_Scanner inp TestInput l) = Done vs s \<and> consumed inp s < length inp"
  with run_calls_new_Scanner [of inp TestInput l F cs] obtain d n where
    c: "conf inp TestInput l d s n" by (auto simp: res_conf_def)
  from conf_consumed [OF c] h have n: "n < length inp" "consumed inp s = n" by simp_all
  from strict_destructor_at_unread_byte [OF c n(1), of cv] n(2)
  show "Scanner_destructor cv s =
           Some (Exit 1 Cout
             ((case l of EN \<Rightarrow> ''Line '' | PL \<Rightarrow> ''Wiersz '')
              @ show_nat (line (pos_after inp (consumed inp s)))
              @ (case l of EN \<Rightarrow> '', position '' | PL \<Rightarrow> '', pozycja '')
              @ show_nat (pos (pos_after inp (consumed inp s))) @ '': ''
              @ (case l of EN \<Rightarrow> ''Read '' | PL \<Rightarrow> ''Wczytano '')
              @ char_description (of_char (inp ! consumed inp s))
              @ (case l of EN \<Rightarrow> '', expected EOF'' | PL \<Rightarrow> '', oczekiwano EOF'')
              @ ''\<newline>''))" by simp
qed

theorem release_and_success_verdicts_check_end_of_stream_witness:
  "Scanner_destructor checker_verdict (new_Scanner ''a'' TestInput EN)
     = Some (Exit 1 Cout (''Line 1, position 1: Read '' @ [quote, CHR ''a'', quote]
               @ '', expected EOF\<newline>''))
   \<and> exit_ok checker_verdict [new_Scanner ''a'' Lax EN, new_Scanner [] UserOutput EN]
     = Exit 0 Cout ''OK\<newline>\<newline>100\<newline>''"
proof -
  let ?s = "new_Scanner ''a'' TestInput EN"
  let ?ss = "[new_Scanner ''a'' Lax EN, new_Scanner [] UserOutput EN]"
  note t = release_and_success_verdicts_check_end_of_stream
    [of ?s checker_verdict ?ss "[]" 100 integer_arith "[]" "''a''" EN "[]"]
  have "run_calls integer_arith [] (new_Scanner ''a'' TestInput EN) = Done [] ?s
      \<and> consumed ''a'' ?s < length ''a''"
    by (simp add: consumed_def new_Scanner_def)
  with t have "Scanner_destructor checker_verdict ?s =
           Some (Exit 1 Cout
             ((case EN of EN \<Rightarrow> ''Line '' | PL \<Rightarrow> ''Wiersz '')
              @ show_nat (line (pos_after ''a'' (consumed ''a'' ?s)))
              @ (case EN of EN \<Rightarrow> '', position '' | PL \<Rightarrow> '', pozycja '')
              @ show_nat (pos (pos_after ''a'' (consumed ''a'' ?s))) @ '': ''
              @ (case EN of EN \<Rightarrow> ''Read '' | PL \<Rightarrow> ''Wczytano '')
              @ char_description (of_char (''a'' ! consumed ''a'' ?s))
              @ (case EN of EN \<Rightarrow> '', expected EOF'' | PL \<Rightarrow> '', oczekiwano EOF'')
              @ ''\<newline>''))" by blast
  then have a: "Scanner_destructor checker_verdict ?s
     = Some (Exit 1 Cout (''Line 1, position 1: Read '' @ [quote, CHR ''a'', quote]
               @ '', expected EOF\<newline>''))"
    by (simp add: consumed_def new_Scanner_def pos_after_def show_nat.simps digit_char_def
        char_description_def digits_def isgraph_def char_of_def)
  have "\<forall>t\<in>set ?ss. mode t = Lax \<or> (\<exists>t'. scan_eof t = Done () t')"
    by (simp add: new_Scanner_def scan_eof_def eof_skip_loop.simps getchar_def getc_unlocked_def
        Let_def)
  with t have "exit_ok checker_verdict ?ss = Exit 0 Cout ''OK\<newline>\<newline>100\<newline>''" by blast
  with a show ?thesis by simp
qed

section \<open>Random: sampling an integer of a range\<close>

text \<open>
  Claim C3, as stated, at the call \<^verbatim>\<open>operator()<uint8_t>(0, 255)\<close>, the full width of the
  type, with the raw draws \<open>2^64 - 1\<close> and 5: the claim promises a single raw draw
  reinterpreted, which is 255 and leaves the draw 5 unused. In the code \<^verbatim>\<open>range_len\<close> is
  computed in 64 bits and is 256, not 0, so the call goes through the rejection loop with the
  limit \<open>2^64 - 256\<close>: the first draw is discarded and the second one gives 5.
\<close>

theorem Random_full_range_of_narrow_type_may_reject:
  "Random_unsigned (0 :: 8 word) 255 [- 1, 5] = Sampled 5 []
   \<and> Random_unsigned (0 :: 8 word) 255 [- 1, 5] \<noteq> Sampled (ucast (- 1 :: 64 word)) [5]"
  by (simp add: Random_unsigned_def generator_range_len_def Let_def)

text \<open>
  Claim C3, amended: for an unsigned type \<^verbatim>\<open>T\<close> of at most 64 bits and \<open>min_val \<le> max_val\<close>,
  a call of \<^verbatim>\<open>Random::operator()\<close> that returns gives a value of \<open>[min_val, max_val]\<close>, and
  this value is the one that the first draw not discarded gives alone, the draws before it
  being discarded each. The call returns as soon as one draw is not discarded, and the draw 0
  never is. Each value of the range is given by the same number of raw 64-bit draws, and by at
  least one: the raw draws being uniform, every value of the range is returned with the same
  probability. The full range of a type of exactly 64 bits is a single raw draw reinterpreted;
  the full range of a narrower type goes through the rejection loop as any other range does.
  For a signed type and \<open>min_val \<le> max_val\<close> as signed numbers, the assertion of the call
  delegated to holds, the result is \<open>v\<close> exactly when the unsigned call on the range shifted by
  \<^verbatim>\<open>numeric_limits<T>::min()\<close> gives \<open>v\<close> shifted, it lies between \<open>min_val\<close> and \<open>max_val\<close>
  as signed numbers, and every value of the range is given by the same number of raw draws.
  The witness takes the range \<open>[3, 7]\<close> of \<^verbatim>\<open>uint8_t\<close> and the range \<open>[-2, 2]\<close> of \<^verbatim>\<open>int8_t\<close>
  with the draws \<open>2^64 - 1\<close>, discarded, and 12.
\<close>

theorem Random_is_unbiased:
  fixes min_val max_val v v' :: "'a::len word"
  assumes w: "LENGTH('a) \<le> 64"
  shows "(min_val \<le> max_val \<longrightarrow>
            (Random_unsigned min_val max_val draws = Sampled v gs \<longrightarrow>
               min_val \<le> v \<and> v \<le> max_val
               \<and> (\<exists>rejected g. draws = rejected @ g # gs
                     \<and> (\<forall>x\<in>set rejected. Random_unsigned min_val max_val [x] = Exhausted)
                     \<and> Random_unsigned min_val max_val [g] = Sampled v []))
          \<and> ((\<exists>g\<in>set draws. Random_unsigned min_val max_val [g] \<noteq> Exhausted) \<longrightarrow>
               (\<exists>u rest. Random_unsigned min_val max_val draws = Sampled u rest))
          \<and> Random_unsigned min_val max_val [0] \<noteq> Exhausted
          \<and> (min_val \<le> v \<and> v \<le> max_val \<and> min_val \<le> v' \<and> v' \<le> max_val \<longrightarrow>
               card {g. Random_unsigned min_val max_val [g] = Sampled v []}
                 = card {g. Random_unsigned min_val max_val [g] = Sampled v' []}
               \<and> 0 < card {g. Random_unsigned min_val max_val [g] = Sampled v []}))
       \<and> (LENGTH('a) = 64 \<longrightarrow>
            Random_unsigned (0 :: 'a word) (- 1) (g # gs) = Sampled (ucast g) gs)
       \<and> (sint min_val \<le> sint max_val \<longrightarrow>
            Random_signed min_val max_val draws \<noteq> AssertionFailed
          \<and> (Random_signed min_val max_val draws = Sampled v gs \<longleftrightarrow>
               Random_unsigned (min_val - numeric_limits_min) (max_val - numeric_limits_min) draws
                 = Sampled (v - numeric_limits_min) gs)
          \<and> (Random_signed min_val max_val draws = Sampled v gs \<longrightarrow>
               sint min_val \<le> sint v \<and> sint v \<le> sint max_val)
          \<and> (sint min_val \<le> sint v \<and> sint v \<le> sint max_val
               \<and> sint min_val \<le> sint v' \<and> sint v' \<le> sint max_val \<longrightarrow>
               card {g. Random_signed min_val max_val [g] = Sampled v []}
                 = card {g. Random_signed min_val max_val [g] = Sampled v' []}
               \<and> 0 < card {g. Random_signed min_val max_val [g] = Sampled v []}))"
proof (intro conjI impI)
  assume le: "min_val \<le> max_val" and r: "Random_unsigned min_val max_val draws = Sampled v gs"
  from Random_unsigned_range [OF w le r] show "min_val \<le> v" and "v \<le> max_val" by simp_all
  from Random_unsigned_first_accepted [OF le r]
  show "\<exists>rejected g. draws = rejected @ g # gs
          \<and> (\<forall>x\<in>set rejected. Random_unsigned min_val max_val [x] = Exhausted)
          \<and> Random_unsigned min_val max_val [g] = Sampled v []" .
next
  assume "min_val \<le> max_val" and "\<exists>g\<in>set draws. Random_unsigned min_val max_val [g] \<noteq> Exhausted"
  then show "\<exists>u rest. Random_unsigned min_val max_val draws = Sampled u rest"
    by (rule Random_unsigned_returns)
next
  assume "min_val \<le> max_val"
  then show "Random_unsigned min_val max_val [0] \<noteq> Exhausted"
    by (rule Random_unsigned_zero_accepted)
next
  assume le: "min_val \<le> max_val"
    and v: "min_val \<le> v \<and> v \<le> max_val \<and> min_val \<le> v' \<and> v' \<le> max_val"
  from v have "min_val \<le> v" "v \<le> max_val" "min_val \<le> v'" "v' \<le> max_val" by simp_all
  from Random_unsigned_uniform [OF w le this]
  show "card {g. Random_unsigned min_val max_val [g] = Sampled v []}
          = card {g. Random_unsigned min_val max_val [g] = Sampled v' []}"
    and "0 < card {g. Random_unsigned min_val max_val [g] = Sampled v []}" by simp_all
next
  assume "LENGTH('a) = 64"
  then show "Random_unsigned (0 :: 'a word) (- 1) (g # gs) = Sampled (ucast g) gs"
    by (rule Random_unsigned_full_64)
next
  assume le: "sint min_val \<le> sint max_val"
  then show "Random_signed min_val max_val draws \<noteq> AssertionFailed"
    by (rule Random_signed_no_assertion)
  from le show "Random_signed min_val max_val draws = Sampled v gs \<longleftrightarrow>
      Random_unsigned (min_val - numeric_limits_min) (max_val - numeric_limits_min) draws
        = Sampled (v - numeric_limits_min) gs"
    by (rule Random_signed_delegates)
next
  assume le: "sint min_val \<le> sint max_val" and r: "Random_signed min_val max_val draws = Sampled v gs"
  from Random_signed_range [OF w le r] show "sint min_val \<le> sint v" and "sint v \<le> sint max_val"
    by simp_all
next
  assume le: "sint min_val \<le> sint max_val"
    and v: "sint min_val \<le> sint v \<and> sint v \<le> sint max_val
               \<and> sint min_val \<le> sint v' \<and> sint v' \<le> sint max_val"
  from v have "sint min_val \<le> sint v" "sint v \<le> sint max_val"
    "sint min_val \<le> sint v'" "sint v' \<le> sint max_val" by simp_all
  from Random_signed_uniform [OF w le this]
  show "card {g. Random_signed min_val max_val [g] = Sampled v []}
          = card {g. Random_signed min_val max_val [g] = Sampled v' []}"
    and "0 < card {g. Random_signed min_val max_val [g] = Sampled v []}" by simp_all
qed


theorem Random_is_unbiased_witness:
  "Random_unsigned (3 :: 8 word) 7 [- 1, 12] = Sampled 5 []
   \<and> Random_unsigned (3 :: 8 word) 7 [- 1] = Exhausted
   \<and> Random_unsigned (3 :: 8 word) 7 [12] = Sampled 5 []
   \<and> card {g. Random_unsigned (3 :: 8 word) 7 [g] = Sampled 3 []}
       = card {g. Random_unsigned (3 :: 8 word) 7 [g] = Sampled 7 []}
   \<and> 0 < card {g. Random_unsigned (3 :: 8 word) 7 [g] = Sampled 3 []}
   \<and> Random_signed (- 2 :: 8 word) 2 [- 1, 12] = Sampled 0 []
   \<and> Random_unsigned (- 2 - numeric_limits_min :: 8 word) (2 - numeric_limits_min) [- 1, 12]
       = Sampled (0 - numeric_limits_min) []"
proof -
  have e: "Random_unsigned (3 :: 8 word) 7 [- 1, 12] = Sampled 5 []"
    by (simp add: Random_unsigned_def generator_range_len_def Let_def
        word_order.extremum_unique)
  have s: "Random_signed (- 2 :: 8 word) 2 [- 1, 12] = Sampled 0 []"
    by (simp add: Random_signed_def Random_unsigned_def generator_range_len_def
        numeric_limits_min_def Let_def word_order.extremum_unique)
  from e Random_is_unbiased
    [where min_val = "3 :: 8 word" and max_val = 7 and draws = "[- 1, 12]" and v = 5 and gs = "[]"]
  have "\<exists>rejected g. [- 1, 12 :: 64 word] = rejected @ [g]
          \<and> (\<forall>x\<in>set rejected. Random_unsigned (3 :: 8 word) 7 [x] = Exhausted)
          \<and> Random_unsigned (3 :: 8 word) 7 [g] = Sampled 5 []"
    by simp
  then have "Random_unsigned (3 :: 8 word) 7 [- 1] = Exhausted
      \<and> Random_unsigned (3 :: 8 word) 7 [12] = Sampled 5 []"
    by (auto simp: append_eq_Cons_conv Cons_eq_append_conv)
  moreover from Random_is_unbiased
    [where min_val = "3 :: 8 word" and max_val = 7 and v = 3 and v' = 7
      and draws = "[]" and gs = "[]"]
  have "card {g. Random_unsigned (3 :: 8 word) 7 [g] = Sampled 3 []}
       = card {g. Random_unsigned (3 :: 8 word) 7 [g] = Sampled 7 []}
     \<and> 0 < card {g. Random_unsigned (3 :: 8 word) 7 [g] = Sampled 3 []}"
    by simp
  moreover from s Random_is_unbiased
    [where min_val = "- 2 :: 8 word" and max_val = 2 and draws = "[- 1, 12]" and v = 0 and gs = "[]"]
  have "Random_unsigned (- 2 - numeric_limits_min :: 8 word) (2 - numeric_limits_min) [- 1, 12]
       = Sampled (0 - numeric_limits_min) []"
    by simp
  ultimately show ?thesis using e s by simp
qed

section \<open>Reading integers: the first overflow\<close>

text \<open>
  Claim C4: \<^verbatim>\<open>operator>>(Num<T>)\<close> on a scanner reached from its construction by any
  successful calls (any mode, any language, anywhere in the stream) consumes the digits one
  at a time; when the digits \<open>pre\<close> read so far, with their sign, have a value that fits \<open>T\<close>
  and the value with the next digit \<open>c\<close> does not, the multiplication by 10 or the addition
  (the subtraction after a minus sign) overflows at \<open>c\<close>, and the operator fails with the
  message "Integer value out of range" right there: \<open>c\<close> is the last byte consumed and the
  position reported is the position of \<open>c\<close> in the stream. The number starts where the
  prologue of the operator leaves the cursor, whatever obligations were pending (first
  part); with no pending obligation that is the cursor of the scanner, after the inline
  whitespace \<open>ws\<close> that the lenient modes skip (second part). The witness is the input
  "2147483648" with the bounds of a signed 32-bit integer, line 1, position 10, and the
  number -2147483649 on the second line of a stream, read after two other calls: line 2,
  position 11.
\<close>

theorem scan_Num_first_overflow:
  assumes reach: "run_calls F cs (new_Scanner inp m l) = Done vs s"
    and pre: "pre \<noteq> []" "\<forall>c\<in>set pre. isdigit (of_char c)" and dc: "isdigit (of_char c)"
    and mm: "min_val \<le> max_val"
    and sg: "is_minus \<longrightarrow> \<not> is_unsigned T"
    and fit: "fits T (with_sign is_minus (decimal_value pre))"
    and over: "\<not> fits T (with_sign is_minus (decimal_value (pre @ [c])))"
  shows "(and_then (read_delayed_unread_chars s) (\<lambda>_ s1. ignore_ws_if_lenient s1) = Done () s1
          \<and> drop (consumed inp s1) inp = sign_text is_minus @ pre @ c # rest \<longrightarrow>
           (\<exists>s'. scan_Num T min_val max_val s = Failed [integer_value_out_of_range l] s'
                 \<and> consumed inp s' = Suc (consumed inp s1 + length (sign_text is_minus) + length pre)
                 \<and> last_char_pos s'
                     = pos_after inp (consumed inp s1 + length (sign_text is_minus) + length pre)
                 \<and> mode s' = m \<and> lang s' = l))
       \<and> (delayed_unread_chars s = [] \<and> (ws = [] \<or> m \<noteq> TestInput)
          \<and> (\<forall>w\<in>set ws. isspace (of_char w) \<and> (of_char w :: int) \<noteq> 10)
          \<and> drop (consumed inp s) inp = ws @ sign_text is_minus @ pre @ c # rest \<longrightarrow>
           (\<exists>s'. scan_Num T min_val max_val s = Failed [integer_value_out_of_range l] s'
                 \<and> consumed inp s'
                     = Suc (consumed inp s + length ws + length (sign_text is_minus) + length pre)
                 \<and> last_char_pos s'
                     = pos_after inp (consumed inp s + length ws + length (sign_text is_minus) + length pre)
                 \<and> mode s' = m \<and> lang s' = l))"
proof (intro conjI impI)
  assume h: "and_then (read_delayed_unread_chars s) (\<lambda>_ s1. ignore_ws_if_lenient s1) = Done () s1
          \<and> drop (consumed inp s1) inp = sign_text is_minus @ pre @ c # rest"
  from reached_conf [OF reach] obtain d n where c: "conf inp m l d s n" by blast
  from h have pro: "and_then (read_delayed_unread_chars s) (\<lambda>_ s1. ignore_ws_if_lenient s1) = Done () s1"
    and inp: "drop (consumed inp s1) inp = sign_text is_minus @ pre @ c # rest" by simp_all
  from sg have sg': "is_minus \<Longrightarrow> \<not> is_unsigned T" by simp
  from scan_Num_overflow_at [OF c pro inp pre dc sg' fit over mm] obtain s' where
    r: "scan_Num T min_val max_val s = Failed [integer_value_out_of_range l] s'"
    and c': "conf inp m l [] s' (Suc (consumed inp s1 + length (sign_text is_minus) + length pre))"
    by blast
  from r conf_consumed [OF c'] conf_last_char_pos [OF c'] conf_fields [OF c']
  show "\<exists>s'. scan_Num T min_val max_val s = Failed [integer_value_out_of_range l] s'
                 \<and> consumed inp s' = Suc (consumed inp s1 + length (sign_text is_minus) + length pre)
                 \<and> last_char_pos s'
                     = pos_after inp (consumed inp s1 + length (sign_text is_minus) + length pre)
                 \<and> mode s' = m \<and> lang s' = l" by simp
next
  assume h: "delayed_unread_chars s = [] \<and> (ws = [] \<or> m \<noteq> TestInput)
          \<and> (\<forall>w\<in>set ws. isspace (of_char w) \<and> (of_char w :: int) \<noteq> 10)
          \<and> drop (consumed inp s) inp = ws @ sign_text is_minus @ pre @ c # rest"
  then have q: "delayed_unread_chars s = []" and md: "ws = [] \<or> m \<noteq> TestInput"
    and ws: "\<forall>w\<in>set ws. isspace (of_char w) \<and> (of_char w :: int) \<noteq> 10"
    and inp: "drop (consumed inp s) inp = ws @ sign_text is_minus @ pre @ c # rest" by simp_all
  note c = reached_conf_empty [OF reach q]
  from number_starts_nonspace [OF pre, of is_minus "c # rest"] obtain y r where
    y: "sign_text is_minus @ pre @ c # rest = y # r" "\<not> isspace (of_char y)" by auto
  from inp y have inp': "drop (consumed inp s) inp = ws @ y # r" by simp
  from prologue_skip_blanks [OF c md inp' ws y(2)] obtain s1 where
    pro: "and_then (read_delayed_unread_chars s) (\<lambda>_ s1. ignore_ws_if_lenient s1) = Done () s1"
    and c1: "conf inp m l [] s1 (consumed inp s + length ws)"
    and d1: "drop (consumed inp s1) inp = y # r" by blast
  from d1 y have inp1: "drop (consumed inp s1) inp = sign_text is_minus @ pre @ c # rest" by simp
  note n1 = conf_consumed [OF c1]
  from sg have sg': "is_minus \<Longrightarrow> \<not> is_unsigned T" by simp
  from scan_Num_overflow_at [OF c pro inp1 pre dc sg' fit over mm] obtain s' where
    r: "scan_Num T min_val max_val s = Failed [integer_value_out_of_range l] s'"
    and c': "conf inp m l [] s' (Suc (consumed inp s1 + length (sign_text is_minus) + length pre))"
    by blast
  from r conf_consumed [OF c'] conf_last_char_pos [OF c'] conf_fields [OF c'] n1
  show "\<exists>s'. scan_Num T min_val max_val s = Failed [integer_value_out_of_range l] s'
                 \<and> consumed inp s'
                     = Suc (consumed inp s + length ws + length (sign_text is_minus) + length pre)
                 \<and> last_char_pos s'
                     = pos_after inp (consumed inp s + length ws + length (sign_text is_minus) + length pre)
                 \<and> mode s' = m \<and> lang s' = l" by simp
qed


theorem scan_Num_first_overflow_witness:
  "outcome_of checker_verdict (scan_Num (Signed 32) (- 2147483648) 2147483647
       (new_Scanner ''2147483648'' TestInput EN))
     = Some (Exit 1 Cout ''Line 1, position 10: Integer value out of range\<newline>'')
   \<and> outcome_of checker_verdict
       (run_calls integer_arith [CharLit 120, CharLit 10, ReadNum (Signed 32) (- 2147483648) 2147483647]
          (new_Scanner ''x\<newline>-2147483649'' TestInput EN))
     = Some (Exit 1 Cout ''Line 2, position 11: Integer value out of range\<newline>'')"
proof -
  let ?s0 = "new_Scanner ''2147483648'' TestInput EN"
  have q0: "delayed_unread_chars ?s0 = []" by (simp add: new_Scanner_def)
  have n0: "consumed ''2147483648'' ?s0 = 0" by (simp add: consumed_def new_Scanner_def)
  from scan_Num_first_overflow
    [where F = integer_arith and cs = "[]" and inp = "''2147483648''" and m = TestInput and l = EN
       and vs = "[]" and s = ?s0
       and pre = "''214748364''" and c = "CHR ''8''" and rest = "[]" and ws = "[]"
       and is_minus = False and T = "Signed 32"
       and min_val = "- 2147483648" and max_val = 2147483647, THEN conjunct2]
  obtain s' where "scan_Num (Signed 32) (- 2147483648) 2147483647 ?s0
       = Failed [integer_value_out_of_range EN] s'"
    and "last_char_pos s' = \<lparr>line = 1, pos = 10\<rparr>" and "mode s' = TestInput" and "lang s' = EN"
    by (auto simp: isdigit_def fits_def with_sign_def sign_text_def q0 n0
        pos_after_def items_def advance_def)
  then have a: "outcome_of checker_verdict (scan_Num (Signed 32) (- 2147483648) 2147483647 ?s0)
     = Some (Exit 1 Cout ''Line 1, position 10: Integer value out of range\<newline>'')"
    by (simp add: outcome_of_def error_text do_error_def StreamImpl_exit_def
        integer_value_out_of_range_def show_nat.simps digit_char_def)
  let ?inp = "''x\<newline>-2147483649''"
  obtain S where reach: "run_calls integer_arith [CharLit 120, CharLit 10] (new_Scanner ?inp TestInput EN)
      = Done [Unit, Unit] S" and q: "delayed_unread_chars S = []" and n: "consumed ?inp S = 2"
    by (simp add: run_call_def scan_char_def enqueues_def isspace_def
      read_delayed_unread_chars_def ignore_ws_if_lenient_def and_then_def new_Scanner_def
      getchar_def getc_unlocked_def EOF_def advance_def Let_def consumed_def)
  from reach q n scan_Num_first_overflow
    [where F = integer_arith and cs = "[CharLit 120, CharLit 10]" and inp = ?inp and m = TestInput
       and l = EN and vs = "[Unit, Unit]" and s = S
       and pre = "''214748364''" and c = "CHR ''9''" and rest = "[]" and ws = "[]"
       and is_minus = True and T = "Signed 32"
       and min_val = "- 2147483648" and max_val = 2147483647, THEN conjunct2]
  obtain s' where "scan_Num (Signed 32) (- 2147483648) 2147483647 S
       = Failed [integer_value_out_of_range EN] s'"
    and "last_char_pos s' = \<lparr>line = 2, pos = 11\<rparr>" and "mode s' = TestInput" and "lang s' = EN"
    by (auto simp: isdigit_def fits_def with_sign_def sign_text_def
        pos_after_def items_def advance_def)
  with reach run_calls_append [of integer_arith "[CharLit 120, CharLit 10]"
      "[ReadNum (Signed 32) (- 2147483648) 2147483647]" "new_Scanner ?inp TestInput EN"]
  have "outcome_of checker_verdict
       (run_calls integer_arith [CharLit 120, CharLit 10, ReadNum (Signed 32) (- 2147483648) 2147483647]
          (new_Scanner ?inp TestInput EN))
     = Some (Exit 1 Cout ''Line 2, position 11: Integer value out of range\<newline>'')"
    by (simp add: run_call_def and_then_def outcome_of_def error_text do_error_def StreamImpl_exit_def
        integer_value_out_of_range_def show_nat.simps digit_char_def)
  with a show ?thesis by simp
qed

section \<open>The position named in a diagnostic\<close>

text \<open>
  Claim C5, as stated, on the one-byte input "x" read in Strict mode by two calls
  \<^verbatim>\<open>s >> 'x' >> 'x'\<close>: the second call fails at the end of the stream. The last byte
  consumed, the only byte there is, stands at line 1, position 1; the message names line 1,
  position 2.
\<close>

theorem failure_at_end_of_stream_names_position_past_last_byte:
  "outcome_of checker_verdict
      (run_calls integer_arith [CharLit 120, CharLit 120] (new_Scanner ''x'' TestInput EN))
     = Some (Exit 1 Cout (''Line 1, position 2: Read EOF, expected '' @ [quote, CHR ''x'', quote]
               @ ''\<newline>''))
   \<and> pos_after ''x'' (length ''x'' - 1) = \<lparr>line = 1, pos = 1\<rparr>"
  by (simp add: outcome_of_def run_call_def scan_char_def enqueues_def isspace_def
      read_delayed_unread_chars_def ignore_ws_if_lenient_def and_then_def new_Scanner_def
      getchar_def getc_unlocked_def EOF_def advance_def Let_def error_def do_error_def
      StreamImpl_exit_def char_description_def digits_def isgraph_def show_nat.simps digit_char_def
      pos_after_def items_def char_of_def)


text \<open>
  Claim C5, amended: when a call on a scanner fails, the line and position named in the
  diagnostic are those of the last item obtained from the stream and not pushed back, where
  the items of a stream are its bytes followed by one end-of-stream marker placed just past
  the last byte. So the position is never that of a pushed-back lookahead byte, and a
  failure reported upon encountering the end of the stream names the position just past the
  last byte (the start of the next line when that byte is a newline). Here
  \<open>consumed inp s\<close> counts the items obtained and not pushed back and \<open>pos_after inp k\<close> is
  the position reached after \<open>k\<close> items of \<open>inp\<close>, that of item number \<open>k + 1\<close>. The calls are
  any sequence of the operators of the scanner, from its construction on.
\<close>

theorem diagnostic_names_last_item_obtained:
  assumes "run_calls F cs (new_Scanner inp m l) = Failed msg s'"
  shows "last_char_pos s' = pos_after inp (consumed inp s' - 1)
       \<and> consumed inp s' \<le> Suc (length inp)
       \<and> (eofed s' \<longrightarrow> last_char_pos s' = pos_after inp (length inp))
       \<and> error cv s' msg =
           do_error cv m
             ((case l of EN \<Rightarrow> ''Line '' | PL \<Rightarrow> ''Wiersz '')
              # show_nat (line (pos_after inp (consumed inp s' - 1)))
              # (case l of EN \<Rightarrow> '', position '' | PL \<Rightarrow> '', pozycja '')
              # show_nat (pos (pos_after inp (consumed inp s' - 1))) # '': '' # msg)"
proof -
  from run_calls_new_Scanner [of inp m l F cs] assms obtain d n where c: "conf inp m l d s' n"
    by (auto simp: res_conf_def)
  from c have e: "eofed s' \<longrightarrow> n = Suc (length inp)" by (simp add: conf_def cursor_def)
  from conf_consumed [OF c] conf_last_char_pos [OF c] conf_fields [OF c] conf_le [OF c] e
  show ?thesis by (auto simp: error_text)
qed

theorem diagnostic_names_last_item_obtained_witness:
  "\<exists>msg s'. run_calls integer_arith [CharLit 120, CharLit 120] (new_Scanner ''x'' TestInput EN)
        = Failed msg s'
      \<and> consumed ''x'' s' = 2
      \<and> last_char_pos s' = pos_after ''x'' (consumed ''x'' s' - 1)
      \<and> pos_after ''x'' (consumed ''x'' s' - 1) = \<lparr>line = 1, pos = 2\<rparr>"
proof -
  have "\<exists>msg s'. run_calls integer_arith [CharLit 120, CharLit 120] (new_Scanner ''x'' TestInput EN)
        = Failed msg s' \<and> consumed ''x'' s' = 2"
    by (simp add: run_call_def scan_char_def enqueues_def isspace_def
      read_delayed_unread_chars_def ignore_ws_if_lenient_def and_then_def new_Scanner_def
      getchar_def getc_unlocked_def EOF_def advance_def Let_def consumed_def)
  then obtain msg s' where
    r: "run_calls integer_arith [CharLit 120, CharLit 120] (new_Scanner ''x'' TestInput EN)
        = Failed msg s'" and k: "consumed ''x'' s' = 2" by blast
  from diagnostic_names_last_item_obtained [OF r, of checker_verdict]
  have "last_char_pos s' = pos_after ''x'' (consumed ''x'' s' - 1)" by simp
  moreover from k have "pos_after ''x'' (consumed ''x'' s' - 1) = \<lparr>line = 1, pos = 2\<rparr>"
    by (simp add: pos_after_def items_def advance_def EOF_def)
  ultimately show ?thesis using r k by blast
qed

section \<open>Whitespace literals in the lenient and the strict modes\<close>

text \<open>
  Claim C6: on a scanner reached from its construction by any successful calls, with no
  pending obligation, at inline whitespace bytes \<open>ws\<close> followed by a byte \<open>x\<close> that is not
  whitespace (an ASCII byte, so that the literal \<open>x\<close> has the value of the byte whether
  \<^verbatim>\<open>char\<close> is signed or not), the calls matching the inline whitespace literals \<open>lits\<close> and
  then the literal \<open>x\<close> behave as follows. In the modes UserOutput and Lax the kind of the
  whitespace does not matter and the number does: the literals only queue obligations and
  consume nothing; once resolved, the obligations have consumed exactly one byte of \<open>ws\<close>
  each, whatever its kind; the calls succeed when there are at least as many bytes in \<open>ws\<close> as
  literals (the prologue of the last call skips the others); and with fewer bytes than
  literals the last call fails at \<open>x\<close>, read where a blank was expected. In the mode
  TestInput each byte must be the literal itself: the calls succeed when the literals are the
  bytes of \<open>ws\<close>, and the first literal that differs from its byte fails at that byte. The
  witness is the four calls \<^verbatim>\<open>' '\<close>, \<^verbatim>\<open>'\\t'\<close>, \<^verbatim>\<open>'\\t'\<close>, \<^verbatim>\<open>'x'\<close> on the input space, tab, form
  feed, x: they succeed in the mode UserOutput and fail in the mode TestInput at the form
  feed, line 1, position 3; and three blank literals on the input of two blanks and x, which
  fail in the mode UserOutput at x.
\<close>

theorem lenient_whitespace_kinds_are_interchangeable:
  assumes reach: "run_calls F cs (new_Scanner inp m l) = Done vs s"
    and q: "delayed_unread_chars s = []"
    and lits: "\<forall>c\<in>set lits. isspace c \<and> c \<noteq> 10"
    and ws: "\<forall>w\<in>set ws. isspace (of_char w) \<and> (of_char w :: int) \<noteq> 10"
    and x: "\<not> isspace (of_char x)" "(of_char x :: int) < 128"
    and inp: "drop (consumed inp s) inp = ws @ x # rest"
  shows "(m \<noteq> TestInput \<and> length lits \<le> length ws \<longrightarrow>
           (\<exists>s1 s2. run_calls F (map CharLit lits) s = Done (replicate (length lits) Unit) s1
               \<and> delayed_unread_chars s1 = replicate (length lits) WHITESPACE
               \<and> consumed inp s1 = consumed inp s
               \<and> read_delayed_unread_chars s1 = Done () s2
               \<and> delayed_unread_chars s2 = []
               \<and> consumed inp s2 = consumed inp s + length lits)
         \<and> (\<exists>s'. run_calls F (map CharLit lits @ [CharLit (of_char x)]) s
                   = Done (replicate (Suc (length lits)) Unit) s'
               \<and> consumed inp s' = consumed inp s + Suc (length ws)))
       \<and> (m \<noteq> TestInput \<and> length ws < length lits \<longrightarrow>
           (\<exists>s'. run_calls F (map CharLit lits @ [CharLit (of_char x)]) s
                   = Failed (case l of
                       EN \<Rightarrow> [''Read '', char_description (of_char x), '', expected '',
                              [quote, CHR '' '', quote]]
                     | PL \<Rightarrow> [''Wczytano '', char_description (of_char x), '', oczekiwano '',
                              [quote, CHR '' '', quote]]) s'
               \<and> consumed inp s' = consumed inp s + Suc (length ws)
               \<and> last_char_pos s' = pos_after inp (consumed inp s + length ws)
               \<and> mode s' = m \<and> lang s' = l))
       \<and> (m = TestInput \<and> lits = map of_char ws \<longrightarrow>
           (\<exists>s'. run_calls F (map CharLit lits @ [CharLit (of_char x)]) s
                   = Done (replicate (Suc (length lits)) Unit) s'
               \<and> consumed inp s' = consumed inp s + Suc (length ws)))
       \<and> (m = TestInput \<and> i < length lits \<and> i < length ws
            \<and> (\<forall>j<i. of_char (ws ! j) = lits ! j) \<and> of_char (ws ! i) \<noteq> lits ! i \<longrightarrow>
           (\<exists>s'. run_calls F (map CharLit lits @ [CharLit (of_char x)]) s
                   = Failed (case l of
                       EN \<Rightarrow> [''Read '', char_description (of_char (ws ! i)), '', expected '',
                              char_description (lits ! i)]
                     | PL \<Rightarrow> [''Wczytano '', char_description (of_char (ws ! i)), '', oczekiwano '',
                              char_description (lits ! i)]) s'
               \<and> consumed inp s' = consumed inp s + Suc i
               \<and> last_char_pos s' = pos_after inp (consumed inp s + i)
               \<and> mode s' = m \<and> lang s' = l))"
proof -
  let ?n = "consumed inp s"
  let ?k = "length lits"
  let ?calls = "map CharLit lits @ [CharLit (of_char x)]"
  note c = reached_conf_empty [OF reach q]
  have "ws @ x # rest \<noteq> []" by simp
  from cursor_split [OF inp this] obtain before where
    b: "inp = before @ ws @ x # rest" and lb: "length before = ?n" by blast
  note idx = cursor_nth [OF b lb]
  note len = idx(1) and at_x = idx(2) and at_ws = idx(3)
  from ws at_ws have blanks: "\<forall>i<length ws. isspace (of_char (inp ! (?n + i)))
      \<and> (of_char (inp ! (?n + i)) :: int) \<noteq> 10" by simp
  have split: "run_calls F ?calls s' =
      and_then (run_calls F (map CharLit lits) s')
        (\<lambda>vs s1. and_then (run_calls F [CharLit (of_char x)] s1) (\<lambda>ws s2. Done (vs @ ws) s2))" for s'
    by (rule run_calls_append)
  have queued: "\<exists>s1. run_calls F (map CharLit lits) s = Done (replicate ?k Unit) s1
      \<and> conf inp m l (replicate ?k WHITESPACE) s1 ?n" if m: "m \<noteq> TestInput"
  proof -
    from enqueue_whitespace_literals [where rest = "[]" and F = F, OF c m lits] obtain s1 where
      "run_calls F (map CharLit lits @ []) s =
          and_then (run_calls F [] s1) (\<lambda>vs s2. Done (replicate ?k Unit @ vs) s2)"
      and "conf inp m l ([] @ replicate ?k WHITESPACE) s1 ?n" by blast
    then show ?thesis by (simp add: and_then_def)
  qed
  show ?thesis
  proof (intro conjI impI)
    assume h: "m \<noteq> TestInput \<and> length lits \<le> length ws"
    then have m: "m \<noteq> TestInput" and le: "?k \<le> length ws" by simp_all
    from queued [OF m] obtain s1 where
      r1: "run_calls F (map CharLit lits) s = Done (replicate ?k Unit) s1"
      and c1: "conf inp m l (replicate ?k WHITESPACE) s1 ?n" by blast
    let ?e = "length ws - ?k"
    from le have ke: "?k + ?e = length ws" by simp
    from len ke have len': "?n + ?k + ?e < length inp" by (simp add: add.assoc)
    from blanks ke have ws': "\<forall>i<?k + ?e. isspace (of_char (inp ! (?n + i)))
      \<and> (of_char (inp ! (?n + i)) :: int) \<noteq> 10" by simp
    from at_x ke have x': "of_char (inp ! (?n + ?k + ?e)) = (of_char x :: int)"
      by (simp add: add.assoc)
    from scan_char_after_whitespace_queue_skip [OF c1 m len' ws' x' x(1)] obtain s2 s' where
      rd: "read_delayed_unread_chars s1 = Done () s2" and c2: "conf inp m l [] s2 (?n + ?k)"
      and sc: "scan_char (of_char x) s1 = Done () s'"
      and c': "conf inp m l [] s' (Suc (?n + ?k + ?e))" by blast
    from r1 rd conf_fields [OF c1] conf_consumed [OF c1] conf_fields [OF c2] conf_consumed [OF c2]
    show "\<exists>s1 s2. run_calls F (map CharLit lits) s = Done (replicate (length lits) Unit) s1
               \<and> delayed_unread_chars s1 = replicate (length lits) WHITESPACE
               \<and> consumed inp s1 = consumed inp s
               \<and> read_delayed_unread_chars s1 = Done () s2
               \<and> delayed_unread_chars s2 = []
               \<and> consumed inp s2 = consumed inp s + length lits" by simp
    from r1 sc have "run_calls F ?calls s = Done (replicate (Suc ?k) Unit) s'"
      by (simp add: split run_call_def and_then_def replicate_append_same)
    with conf_consumed [OF c'] ke
    show "\<exists>s'. run_calls F ?calls s = Done (replicate (Suc (length lits)) Unit) s'
               \<and> consumed inp s' = consumed inp s + Suc (length ws)" by (simp add: add.assoc)
  next
    assume h: "m \<noteq> TestInput \<and> length ws < length lits"
    then have m: "m \<noteq> TestInput" and lt: "length ws < ?k" by simp_all
    from queued [OF m] obtain s1 where
      r1: "run_calls F (map CharLit lits) s = Done (replicate ?k Unit) s1"
      and c1: "conf inp m l (replicate ?k WHITESPACE) s1 ?n" by blast
    from at_x x(1) have nx: "\<not> isspace (of_char (inp ! (?n + length ws)))" by simp
    from scan_char_too_few_blanks [OF c1 m lt len blanks nx x(1)] at_x obtain s' where
      sc: "scan_char (of_char x) s1
              = Failed (case l of
                   EN \<Rightarrow> [''Read '', char_description (of_char x), '', expected '',
                          [quote, CHR '' '', quote]]
                 | PL \<Rightarrow> [''Wczytano '', char_description (of_char x), '', oczekiwano '',
                          [quote, CHR '' '', quote]]) s'"
      and c': "conf inp m l (replicate ?k WHITESPACE) s' (Suc (?n + length ws))" by auto
    from r1 sc have "run_calls F ?calls s
              = Failed (case l of
                   EN \<Rightarrow> [''Read '', char_description (of_char x), '', expected '',
                          [quote, CHR '' '', quote]]
                 | PL \<Rightarrow> [''Wczytano '', char_description (of_char x), '', oczekiwano '',
                          [quote, CHR '' '', quote]]) s'"
      by (simp add: split run_call_def and_then_def)
    with conf_consumed [OF c'] conf_last_char_pos [OF c'] conf_fields [OF c']
    show "\<exists>s'. run_calls F ?calls s
                   = Failed (case l of
                       EN \<Rightarrow> [''Read '', char_description (of_char x), '', expected '',
                              [quote, CHR '' '', quote]]
                     | PL \<Rightarrow> [''Wczytano '', char_description (of_char x), '', oczekiwano '',
                              [quote, CHR '' '', quote]]) s'
               \<and> consumed inp s' = consumed inp s + Suc (length ws)
               \<and> last_char_pos s' = pos_after inp (consumed inp s + length ws)
               \<and> mode s' = m \<and> lang s' = l" by simp
  next
    assume h: "m = TestInput \<and> lits = map of_char ws"
    then have m: "m = TestInput" and eq: "lits = map of_char ws" by simp_all
    from c m have cT: "conf inp TestInput l [] s ?n" by simp
    let ?all = "lits @ [of_char x]"
    from len eq have len': "?n + length ?all \<le> length inp" by simp
    from at_ws at_x eq have mt: "\<forall>j<length ?all. of_char (inp ! (?n + j)) = ?all ! j"
      by (auto simp: nth_append less_Suc_eq)
    from strict_literals_match [where after = "[]" and F = F, OF cT len' mt] obtain s' where
      "run_calls F (map CharLit ?all @ []) s =
          and_then (run_calls F [] s') (\<lambda>vs s2. Done (replicate (length ?all) Unit @ vs) s2)"
      and c': "conf inp TestInput l [] s' (?n + length ?all)" by blast
    then have "run_calls F ?calls s = Done (replicate (Suc ?k) Unit) s'"
      by (simp add: and_then_def replicate_append_same)
    with conf_consumed [OF c'] eq
    show "\<exists>s'. run_calls F ?calls s = Done (replicate (Suc (length lits)) Unit) s'
               \<and> consumed inp s' = consumed inp s + Suc (length ws)" by simp
  next
    assume h: "m = TestInput \<and> i < length lits \<and> i < length ws
            \<and> (\<forall>j<i. of_char (ws ! j) = lits ! j) \<and> of_char (ws ! i) \<noteq> lits ! i"
    then have m: "m = TestInput" and il: "i < ?k" and iw: "i < length ws"
      and same: "\<forall>j<i. of_char (ws ! j) = lits ! j" and diff: "of_char (ws ! i) \<noteq> lits ! i"
      by simp_all
    from c m have cT: "conf inp TestInput l [] s ?n" by simp
    let ?pre = "take i lits"
    let ?after = "CharLit (lits ! i) # map CharLit (drop (Suc i) lits) @ [CharLit (of_char x)]"
    from id_take_nth_drop [OF il]
    have "map CharLit lits = map CharLit (take i lits @ lits ! i # drop (Suc i) lits)"
      by (rule arg_cong)
    then have calls: "?calls = map CharLit ?pre @ ?after" by simp
    from il have lp: "length ?pre = i" by simp
    from len iw lp have len': "?n + length ?pre \<le> length inp" by simp
    from same at_ws iw il have mt: "\<forall>j<length ?pre. of_char (inp ! (?n + j)) = ?pre ! j"
      by simp
    from strict_literals_match [where after = ?after and F = F, OF cT len' mt] lp obtain s1 where
      r1: "run_calls F (map CharLit ?pre @ ?after) s =
          and_then (run_calls F ?after s1) (\<lambda>vs s2. Done (replicate i Unit @ vs) s2)"
      and c1: "conf inp TestInput l [] s1 (?n + i)" by auto
    from len iw have ni: "?n + i < length inp" by simp
    from scan_char_strict [OF c1 ni, of "lits ! i"]
    have "\<exists>s'. conf inp TestInput l [] s' (Suc (?n + i))
           \<and> scan_char (lits ! i) s1 =
               (if of_char (ws ! i) = lits ! i then Done () s'
                else Failed (case l of
                   EN \<Rightarrow> [''Read '', char_description (of_char (ws ! i)), '', expected '',
                          char_description (lits ! i)]
                 | PL \<Rightarrow> [''Wczytano '', char_description (of_char (ws ! i)), '', oczekiwano '',
                          char_description (lits ! i)]) s')"
      by (simp only: at_ws [OF iw])
    with diff obtain s' where
      c': "conf inp TestInput l [] s' (Suc (?n + i))"
      and sc: "scan_char (lits ! i) s1 =
               Failed (case l of
                   EN \<Rightarrow> [''Read '', char_description (of_char (ws ! i)), '', expected '',
                          char_description (lits ! i)]
                 | PL \<Rightarrow> [''Wczytano '', char_description (of_char (ws ! i)), '', oczekiwano '',
                          char_description (lits ! i)]) s'" by auto
    from r1 sc have "run_calls F (map CharLit ?pre @ ?after) s =
               Failed (case l of
                   EN \<Rightarrow> [''Read '', char_description (of_char (ws ! i)), '', expected '',
                          char_description (lits ! i)]
                 | PL \<Rightarrow> [''Wczytano '', char_description (of_char (ws ! i)), '', oczekiwano '',
                          char_description (lits ! i)]) s'"
      by (simp add: run_call_def and_then_def)
    then have "run_calls F ?calls s =
               Failed (case l of
                   EN \<Rightarrow> [''Read '', char_description (of_char (ws ! i)), '', expected '',
                          char_description (lits ! i)]
                 | PL \<Rightarrow> [''Wczytano '', char_description (of_char (ws ! i)), '', oczekiwano '',
                          char_description (lits ! i)]) s'"
      by (simp only: calls)
    with conf_consumed [OF c'] conf_last_char_pos [OF c'] conf_fields [OF c'] m
    show "\<exists>s'. run_calls F ?calls s
                   = Failed (case l of
                       EN \<Rightarrow> [''Read '', char_description (of_char (ws ! i)), '', expected '',
                              char_description (lits ! i)]
                     | PL \<Rightarrow> [''Wczytano '', char_description (of_char (ws ! i)), '', oczekiwano '',
                              char_description (lits ! i)]) s'
               \<and> consumed inp s' = consumed inp s + Suc i
               \<and> last_char_pos s' = pos_after inp (consumed inp s + i)
               \<and> mode s' = m \<and> lang s' = l" by simp
  qed
qed

theorem lenient_whitespace_kinds_are_interchangeable_witness:
  "returned (run_calls integer_arith [CharLit 32, CharLit 9, CharLit 9, CharLit 120]
               (new_Scanner [CHR '' '', CHR 0x09, CHR 0x0C, CHR ''x''] UserOutput EN))
     = Some [Unit, Unit, Unit, Unit]
   \<and> outcome_of checker_verdict
         (run_calls integer_arith [CharLit 32, CharLit 9, CharLit 9, CharLit 120]
            (new_Scanner [CHR '' '', CHR 0x09, CHR 0x0C, CHR ''x''] TestInput EN))
       = Some (Exit 1 Cout (''Line 1, position 3: Read '' @ [quote, backslash] @ ''x0c'' @ [quote]
                 @ '', expected '' @ [quote, backslash, CHR ''t'', quote] @ ''\<newline>''))
   \<and> outcome_of checker_verdict
         (run_calls integer_arith [CharLit 32, CharLit 32, CharLit 32, CharLit 120]
            (new_Scanner ''  x'' UserOutput EN))
       = Some (Exit 0 Cout (''WRONG\<newline>Line 1, position 3: Read '' @ [quote] @ ''x'' @ [quote]
                 @ '', expected '' @ [quote, CHR '' '', quote] @ ''\<newline>0\<newline>''))"
proof -
  let ?inp = "[CHR '' '', CHR 0x09, CHR 0x0C, CHR ''x'']"
  have q0: "delayed_unread_chars (new_Scanner inp m l) = []" for inp m l
    by (simp add: new_Scanner_def)
  have n0: "consumed inp (new_Scanner inp m l) = 0" for inp m l
    by (simp add: consumed_def new_Scanner_def)
  from lenient_whitespace_kinds_are_interchangeable
    [where F = integer_arith and cs = "[]" and inp = ?inp and m = UserOutput and l = EN
       and vs = "[]" and s = "new_Scanner ?inp UserOutput EN"
       and lits = "[32, 9, 9]" and ws = "[CHR '' '', CHR 0x09, CHR 0x0C]" and x = "CHR ''x''"
       and rest = "[]", THEN conjunct1]
  have "\<exists>s'. run_calls integer_arith [CharLit 32, CharLit 9, CharLit 9, CharLit 120]
               (new_Scanner ?inp UserOutput EN) = Done [Unit, Unit, Unit, Unit] s'"
    by (auto simp: isspace_def q0 n0)
  then have a: "returned (run_calls integer_arith [CharLit 32, CharLit 9, CharLit 9, CharLit 120]
               (new_Scanner ?inp UserOutput EN)) = Some [Unit, Unit, Unit, Unit]"
    by (auto simp: returned_def)
  from lenient_whitespace_kinds_are_interchangeable
    [where F = integer_arith and cs = "[]" and inp = ?inp and m = TestInput and l = EN
       and vs = "[]" and s = "new_Scanner ?inp TestInput EN"
       and lits = "[32, 9, 9]" and ws = "[CHR '' '', CHR 0x09, CHR 0x0C]" and x = "CHR ''x''"
       and rest = "[]" and i = "Suc (Suc 0)", THEN conjunct2, THEN conjunct2, THEN conjunct2]
  obtain s' where "run_calls integer_arith [CharLit 32, CharLit 9, CharLit 9, CharLit 120]
               (new_Scanner ?inp TestInput EN)
      = Failed [''Read '', char_description 12, '', expected '', char_description 9] s'"
    and "last_char_pos s' = \<lparr>line = 1, pos = 3\<rparr>" and "mode s' = TestInput" and "lang s' = EN"
    by (auto simp: isspace_def q0 n0 less_Suc_eq pos_after_def items_def advance_def)
  then have b: "outcome_of checker_verdict
         (run_calls integer_arith [CharLit 32, CharLit 9, CharLit 9, CharLit 120]
            (new_Scanner ?inp TestInput EN))
       = Some (Exit 1 Cout (''Line 1, position 3: Read '' @ [quote, backslash] @ ''x0c'' @ [quote]
                 @ '', expected '' @ [quote, backslash, CHR ''t'', quote] @ ''\<newline>''))"
    by (simp add: outcome_of_def error_text do_error_def StreamImpl_exit_def
        char_description_def digits_def isgraph_def show_nat.simps digit_char_def)
  from lenient_whitespace_kinds_are_interchangeable
    [where F = integer_arith and cs = "[]" and inp = "''  x''" and m = UserOutput and l = EN
       and vs = "[]" and s = "new_Scanner ''  x'' UserOutput EN"
       and lits = "[32, 32, 32]" and ws = "''  ''" and x = "CHR ''x''"
       and rest = "[]", THEN conjunct2, THEN conjunct1]
  obtain s' where "run_calls integer_arith [CharLit 32, CharLit 32, CharLit 32, CharLit 120]
               (new_Scanner ''  x'' UserOutput EN)
      = Failed [''Read '', char_description 120, '', expected '', [quote, CHR '' '', quote]] s'"
    and "last_char_pos s' = \<lparr>line = 1, pos = 3\<rparr>" and "mode s' = UserOutput" and "lang s' = EN"
    by (auto simp: isspace_def q0 n0 pos_after_def items_def advance_def)
  then have "outcome_of checker_verdict
         (run_calls integer_arith [CharLit 32, CharLit 32, CharLit 32, CharLit 120]
            (new_Scanner ''  x'' UserOutput EN))
       = Some (Exit 0 Cout (''WRONG\<newline>Line 1, position 3: Read '' @ [quote] @ ''x'' @ [quote]
                 @ '', expected '' @ [quote, CHR '' '', quote] @ ''\<newline>0\<newline>''))"
    by (simp add: outcome_of_def error_text do_error_def exit_wrong_def checker_verdict_def
        char_description_def isgraph_def show_nat.simps digit_char_def char_of_def quote_def)
  with a b show ?thesis by simp
qed

section \<open>Reading tokens: the length cap\<close>

text \<open>
  Claim C7: \<^verbatim>\<open>operator>>(Str)\<close> with cap \<open>max_size\<close> on a scanner reached from its
  construction by any successful calls (any mode, any language, anywhere in the stream), at
  \<open>max_size + 1\<close> non-whitespace bytes, fails with the message "Too long string" as soon as
  byte number \<open>max_size + 1\<close> of the token has been appended: that byte is the last one
  consumed and the position reported is its position in the stream. A token of at most
  \<open>max_size\<close> bytes, ended by whitespace or by the end of the stream, is returned whole. The
  token starts where the prologue of the operator leaves the cursor, whatever obligations
  were pending (first part); with no pending obligation that is the cursor of the scanner,
  after the inline whitespace \<open>ws\<close> that the lenient modes skip (second part). The witness
  is the input "abcefg efg" with cap 5, line 1, position 6; the same token on the second
  line of a stream, read after two other calls, line 2, position 6; and the token "abcef"
  after a blank in the mode UserOutput, returned whole.
\<close>

theorem scan_Str_fails_when_cap_exceeded:
  assumes reach: "run_calls F cs (new_Scanner inp m l) = Done vs s"
    and sz: "0 < max_size" and ns: "tok \<noteq> []" "\<forall>c\<in>set tok. \<not> isspace (of_char c)"
  shows "(and_then (read_delayed_unread_chars s) (\<lambda>_ s1. ignore_ws_if_lenient s1) = Done () s1
          \<and> drop (consumed inp s1) inp = tok @ rest \<longrightarrow>
            (length tok = Suc max_size \<longrightarrow>
              (\<exists>s'. scan_Str max_size s = Failed [too_long_string l] s'
                 \<and> consumed inp s' = consumed inp s1 + Suc max_size
                 \<and> last_char_pos s' = pos_after inp (consumed inp s1 + max_size)
                 \<and> mode s' = m \<and> lang s' = l))
          \<and> (length tok \<le> max_size \<and> (rest = [] \<or> isspace (of_char (hd rest))) \<longrightarrow>
              (\<exists>s'. scan_Str max_size s = Done tok s'
                 \<and> consumed inp s' = consumed inp s1 + length tok)))
       \<and> (delayed_unread_chars s = [] \<and> (ws = [] \<or> m \<noteq> TestInput)
          \<and> (\<forall>w\<in>set ws. isspace (of_char w) \<and> (of_char w :: int) \<noteq> 10)
          \<and> drop (consumed inp s) inp = ws @ tok @ rest \<longrightarrow>
            (length tok = Suc max_size \<longrightarrow>
              (\<exists>s'. scan_Str max_size s = Failed [too_long_string l] s'
                 \<and> consumed inp s' = consumed inp s + length ws + Suc max_size
                 \<and> last_char_pos s' = pos_after inp (consumed inp s + length ws + max_size)
                 \<and> mode s' = m \<and> lang s' = l))
          \<and> (length tok \<le> max_size \<and> (rest = [] \<or> isspace (of_char (hd rest))) \<longrightarrow>
              (\<exists>s'. scan_Str max_size s = Done tok s'
                 \<and> consumed inp s' = consumed inp s + length ws + length tok)))"
proof -
  have at: "(length tok = Suc max_size \<longrightarrow>
              (\<exists>s'. scan_Str max_size s = Failed [too_long_string l] s'
                 \<and> consumed inp s' = consumed inp s1 + Suc max_size
                 \<and> last_char_pos s' = pos_after inp (consumed inp s1 + max_size)
                 \<and> mode s' = m \<and> lang s' = l))
          \<and> (length tok \<le> max_size \<and> (rest = [] \<or> isspace (of_char (hd rest))) \<longrightarrow>
              (\<exists>s'. scan_Str max_size s = Done tok s'
                 \<and> consumed inp s' = consumed inp s1 + length tok))"
    if pro: "and_then (read_delayed_unread_chars s) (\<lambda>_ s1. ignore_ws_if_lenient s1) = Done () s1"
      and inp: "drop (consumed inp s1) inp = tok @ rest" for s1
  proof (intro conjI impI)
    assume len: "length tok = Suc max_size"
    from reached_conf [OF reach] obtain d n where c: "conf inp m l d s n" by blast
    from scan_Str_too_long_at [OF c pro inp sz ns(2) len] obtain s' where
      r: "scan_Str max_size s = Failed [too_long_string l] s'"
      and c': "conf inp m l [] s' (consumed inp s1 + Suc max_size)" by blast
    from r conf_consumed [OF c'] conf_last_char_pos [OF c'] conf_fields [OF c']
    show "\<exists>s'. scan_Str max_size s = Failed [too_long_string l] s'
                 \<and> consumed inp s' = consumed inp s1 + Suc max_size
                 \<and> last_char_pos s' = pos_after inp (consumed inp s1 + max_size)
                 \<and> mode s' = m \<and> lang s' = l" by simp
  next
    assume h: "length tok \<le> max_size \<and> (rest = [] \<or> isspace (of_char (hd rest)))"
    then have len: "length tok \<le> max_size" and rest: "rest = [] \<or> isspace (of_char (hd rest))"
      by simp_all
    from reached_conf [OF reach] obtain d n where c: "conf inp m l d s n" by blast
    from scan_Str_ok_at [OF c pro inp sz ns(2) ns(1) len rest] obtain s' where
      r: "scan_Str max_size s = Done tok s'"
      and c': "conf inp m l [] s' (consumed inp s1 + length tok)" by blast
    from r conf_consumed [OF c']
    show "\<exists>s'. scan_Str max_size s = Done tok s'
                 \<and> consumed inp s' = consumed inp s1 + length tok" by simp
  qed
  show ?thesis
  proof (intro conjI impI)
    assume h: "and_then (read_delayed_unread_chars s) (\<lambda>_ s1. ignore_ws_if_lenient s1) = Done () s1
          \<and> drop (consumed inp s1) inp = tok @ rest"
    then have pro: "and_then (read_delayed_unread_chars s) (\<lambda>_ s1. ignore_ws_if_lenient s1) = Done () s1"
      and inp: "drop (consumed inp s1) inp = tok @ rest" by simp_all
    {
      assume "length tok = Suc max_size"
      with at [OF pro inp]
      show "\<exists>s'. scan_Str max_size s = Failed [too_long_string l] s'
                 \<and> consumed inp s' = consumed inp s1 + Suc max_size
                 \<and> last_char_pos s' = pos_after inp (consumed inp s1 + max_size)
                 \<and> mode s' = m \<and> lang s' = l" by blast
    }
    {
      assume "length tok \<le> max_size \<and> (rest = [] \<or> isspace (of_char (hd rest)))"
      with at [OF pro inp]
      show "\<exists>s'. scan_Str max_size s = Done tok s'
                 \<and> consumed inp s' = consumed inp s1 + length tok" by blast
    }
  next
    assume h: "delayed_unread_chars s = [] \<and> (ws = [] \<or> m \<noteq> TestInput)
          \<and> (\<forall>w\<in>set ws. isspace (of_char w) \<and> (of_char w :: int) \<noteq> 10)
          \<and> drop (consumed inp s) inp = ws @ tok @ rest"
    then have q: "delayed_unread_chars s = []" and md: "ws = [] \<or> m \<noteq> TestInput"
      and ws: "\<forall>w\<in>set ws. isspace (of_char w) \<and> (of_char w :: int) \<noteq> 10"
      and inp: "drop (consumed inp s) inp = ws @ tok @ rest" by simp_all
    note c = reached_conf_empty [OF reach q]
    from ns obtain y r where y: "tok = y # r" "\<not> isspace (of_char y)" by (cases tok) auto
    from inp y have inp': "drop (consumed inp s) inp = ws @ y # (r @ rest)" by simp
    from prologue_skip_blanks [OF c md inp' ws y(2)] obtain s1 where
      pro: "and_then (read_delayed_unread_chars s) (\<lambda>_ s1. ignore_ws_if_lenient s1) = Done () s1"
      and c1: "conf inp m l [] s1 (consumed inp s + length ws)"
      and d1: "drop (consumed inp s1) inp = y # (r @ rest)" by blast
    from d1 y have inp1: "drop (consumed inp s1) inp = tok @ rest" by simp
    note n1 = conf_consumed [OF c1]
    {
      assume "length tok = Suc max_size"
      with at [OF pro inp1] n1
      show "\<exists>s'. scan_Str max_size s = Failed [too_long_string l] s'
                 \<and> consumed inp s' = consumed inp s + length ws + Suc max_size
                 \<and> last_char_pos s' = pos_after inp (consumed inp s + length ws + max_size)
                 \<and> mode s' = m \<and> lang s' = l" by simp
    }
    {
      assume "length tok \<le> max_size \<and> (rest = [] \<or> isspace (of_char (hd rest)))"
      with at [OF pro inp1] n1
      show "\<exists>s'. scan_Str max_size s = Done tok s'
                 \<and> consumed inp s' = consumed inp s + length ws + length tok" by simp
    }
  qed
qed

theorem scan_Str_fails_when_cap_exceeded_witness:
  "outcome_of checker_verdict (scan_Str 5 (new_Scanner ''abcefg efg'' TestInput EN))
     = Some (Exit 1 Cout ''Line 1, position 6: Too long string\<newline>'')
   \<and> outcome_of checker_verdict
       (run_calls integer_arith [CharLit 120, CharLit 10, ReadStr 5]
          (new_Scanner ''x\<newline>abcefg efg'' TestInput EN))
     = Some (Exit 1 Cout ''Line 2, position 6: Too long string\<newline>'')
   \<and> returned (scan_Str 5 (new_Scanner '' abcef g'' UserOutput EN)) = Some ''abcef''"
proof -
  have q0: "delayed_unread_chars (new_Scanner inp m l) = []" for inp m l
    by (simp add: new_Scanner_def)
  have n0: "consumed inp (new_Scanner inp m l) = 0" for inp m l
    by (simp add: consumed_def new_Scanner_def)
  from scan_Str_fails_when_cap_exceeded
    [where F = integer_arith and cs = "[]" and inp = "''abcefg efg''" and m = TestInput and l = EN
       and vs = "[]" and s = "new_Scanner ''abcefg efg'' TestInput EN"
       and tok = "''abcefg''" and rest = "'' efg''" and ws = "[]" and max_size = 5,
     THEN conjunct2]
  obtain s' where "scan_Str 5 (new_Scanner ''abcefg efg'' TestInput EN) = Failed [too_long_string EN] s'"
    and "last_char_pos s' = \<lparr>line = 1, pos = 6\<rparr>" and "mode s' = TestInput" and "lang s' = EN"
    by (auto simp: isspace_def q0 n0 pos_after_def items_def advance_def)
  then have a: "outcome_of checker_verdict (scan_Str 5 (new_Scanner ''abcefg efg'' TestInput EN))
     = Some (Exit 1 Cout ''Line 1, position 6: Too long string\<newline>'')"
    by (simp add: outcome_of_def error_text do_error_def StreamImpl_exit_def
        too_long_string_def show_nat.simps digit_char_def)
  let ?inp = "''x\<newline>abcefg efg''"
  obtain S where reach: "run_calls integer_arith [CharLit 120, CharLit 10] (new_Scanner ?inp TestInput EN)
      = Done [Unit, Unit] S" and q: "delayed_unread_chars S = []" and n: "consumed ?inp S = 2"
    by (simp add: run_call_def scan_char_def enqueues_def isspace_def
      read_delayed_unread_chars_def ignore_ws_if_lenient_def and_then_def new_Scanner_def
      getchar_def getc_unlocked_def EOF_def advance_def Let_def consumed_def)
  from reach q n scan_Str_fails_when_cap_exceeded
    [where F = integer_arith and cs = "[CharLit 120, CharLit 10]" and inp = ?inp and m = TestInput
       and l = EN and vs = "[Unit, Unit]" and s = S
       and tok = "''abcefg''" and rest = "'' efg''" and ws = "[]" and max_size = 5,
     THEN conjunct2]
  obtain s' where "scan_Str 5 S = Failed [too_long_string EN] s'"
    and "last_char_pos s' = \<lparr>line = 2, pos = 6\<rparr>" and "mode s' = TestInput" and "lang s' = EN"
    by (auto simp: isspace_def pos_after_def items_def advance_def)
  with reach run_calls_append [of integer_arith "[CharLit 120, CharLit 10]"
      "[ReadStr 5]" "new_Scanner ?inp TestInput EN"]
  have b: "outcome_of checker_verdict
       (run_calls integer_arith [CharLit 120, CharLit 10, ReadStr 5] (new_Scanner ?inp TestInput EN))
     = Some (Exit 1 Cout ''Line 2, position 6: Too long string\<newline>'')"
    by (simp add: run_call_def and_then_def outcome_of_def error_text do_error_def StreamImpl_exit_def
        too_long_string_def show_nat.simps digit_char_def)
  from scan_Str_fails_when_cap_exceeded
    [where F = integer_arith and cs = "[]" and inp = "'' abcef g''" and m = UserOutput and l = EN
       and vs = "[]" and s = "new_Scanner '' abcef g'' UserOutput EN"
       and tok = "''abcef''" and rest = "'' g''" and ws = "'' ''" and max_size = 5,
     THEN conjunct2]
  have "\<exists>s'. scan_Str 5 (new_Scanner '' abcef g'' UserOutput EN) = Done ''abcef'' s'"
    by (auto simp: isspace_def q0 n0)
  with a b show ?thesis by (auto simp: returned_def)
qed

section \<open>Reading lines: the capacity argument\<close>

text \<open>
  Claim C8: \<^verbatim>\<open>operator>>(Line)\<close> never looks at its capacity argument: the result is the
  same for every \<open>max_size\<close>. On a scanner reached from its construction by any successful
  calls, the operator first resolves the pending obligations (the only way it can fail) and
  then returns, whatever the capacity, all the bytes from the cursor up to, not including,
  the next newline or the end of the stream. On a fresh scanner that is the first line of
  the input. The witness reads the two-byte line "ab" with capacity 1.
\<close>

theorem scan_Line_capacity_is_advisory:
  "scan_Line max_size s = scan_Line max_size' s
   \<and> (run_calls F cs (new_Scanner inp m l) = Done vs s \<longrightarrow>
        (case read_delayed_unread_chars s of
           Done u s1 \<Rightarrow>
             \<exists>s2. scan_Line max_size s =
                    Done (takeWhile (\<lambda>c. c \<noteq> CHR 0x0A) (drop (consumed inp s1) inp)) s2
         | Failed msg s1 \<Rightarrow> scan_Line max_size s = Failed msg s1
         | Crashed \<Rightarrow> scan_Line max_size s = Crashed))
   \<and> (\<exists>s2. scan_Line max_size (new_Scanner inp m l) =
              Done (takeWhile (\<lambda>c. c \<noteq> CHR 0x0A) inp) s2)"
proof (intro conjI impI)
  show "scan_Line max_size s = scan_Line max_size' s" by (simp add: scan_Line_def)
next
  assume "run_calls F cs (new_Scanner inp m l) = Done vs s"
  with run_calls_new_Scanner [of inp m l F cs] obtain d n where c: "conf inp m l d s n"
    by (auto simp: res_conf_def)
  from read_delayed_unread_chars_res [OF c]
  show "case read_delayed_unread_chars s of
           Done u s1 \<Rightarrow>
             \<exists>s2. scan_Line max_size s =
                    Done (takeWhile (\<lambda>c. c \<noteq> CHR 0x0A) (drop (consumed inp s1) inp)) s2
         | Failed msg s1 \<Rightarrow> scan_Line max_size s = Failed msg s1
         | Crashed \<Rightarrow> scan_Line max_size s = Crashed"
  proof (elim disjE exE conjE)
    fix s1 n1
    assume r: "read_delayed_unread_chars s = Done () s1" and c1: "conf inp m l [] s1 n1"
    from Line_loop_exact [OF c1, of "[]"] conf_consumed [OF c1] r show ?thesis
      by (auto simp: scan_Line_def and_then_def)
  next
    fix msg s1 n1
    assume "read_delayed_unread_chars s = Failed msg s1"
    then show ?thesis by (simp add: scan_Line_def and_then_def)
  next
    assume "read_delayed_unread_chars s = Crashed"
    then show ?thesis by (simp add: scan_Line_def and_then_def)
  qed
next
  from read_delayed_unread_chars_empty [OF conf_new, of inp m l] obtain s1 where
    r: "read_delayed_unread_chars (new_Scanner inp m l) = Done () s1" and c1: "conf inp m l [] s1 0"
    by blast
  from Line_loop_exact [OF c1, of "[]"] r
  show "\<exists>s2. scan_Line max_size (new_Scanner inp m l) =
              Done (takeWhile (\<lambda>c. c \<noteq> CHR 0x0A) inp) s2"
    by (auto simp: scan_Line_def and_then_def)
qed

theorem scan_Line_capacity_is_advisory_witness:
  "returned (scan_Line 1 (new_Scanner ''ab\<newline>cd'' TestInput EN)) = Some ''ab''
   \<and> run_calls integer_arith [] (new_Scanner ''ab\<newline>cd'' TestInput EN)
       = Done [] (new_Scanner ''ab\<newline>cd'' TestInput EN)"
proof -
  from scan_Line_capacity_is_advisory
    [of 1 "new_Scanner ''ab\<newline>cd'' TestInput EN" 1 integer_arith "[]" "''ab\<newline>cd''" TestInput EN "[]"]
  show ?thesis by (auto simp: returned_def)
qed

section \<open>Reading integers: digit runs within the bounds\<close>

text \<open>
  Claim C9: \<^verbatim>\<open>operator>>(Num<T>)\<close> on a scanner reached from its construction by any
  successful calls (any mode, any language, anywhere in the stream), at a non-empty run of
  decimal digits ended by a non-digit or by the end of the stream, returns exactly the
  decimal value of the run whenever that value lies within the bounds \<open>min_val\<close> and
  \<open>max_val\<close> (values of \<open>T\<close>), and consumes exactly the run; leading zeros are accepted. The
  same holds for a run after a minus sign and a signed \<open>T\<close>. The run starts where the
  prologue of the operator leaves the cursor, whatever obligations were pending (first
  part); with no pending obligation that is the cursor of the scanner, after the inline
  whitespace \<open>ws\<close> that the lenient modes skip (second part). The witness gives "2147483647"
  with the bounds of a signed 32-bit integer, "007" after two blanks in the mode UserOutput,
  and "-007" on the second line of a stream, read after two other calls.
\<close>

theorem scan_Num_parses_digit_run:
  assumes reach: "run_calls F cs (new_Scanner inp m l) = Done vs s"
    and ds: "ds \<noteq> []" "\<forall>c\<in>set ds. isdigit (of_char c)"
    and rest: "rest = [] \<or> \<not> isdigit (of_char (hd rest))"
    and fmin: "fits T min_val" and fmax: "fits T max_val"
    and sg: "is_minus \<longrightarrow> \<not> is_unsigned T"
    and bounds: "min_val \<le> with_sign is_minus (decimal_value ds)"
      "with_sign is_minus (decimal_value ds) \<le> max_val"
  shows "(and_then (read_delayed_unread_chars s) (\<lambda>_ s1. ignore_ws_if_lenient s1) = Done () s1
          \<and> drop (consumed inp s1) inp = sign_text is_minus @ ds @ rest \<longrightarrow>
           (\<exists>s'. scan_Num T min_val max_val s = Done (with_sign is_minus (decimal_value ds)) s'
                 \<and> consumed inp s' = consumed inp s1 + length (sign_text is_minus) + length ds))
       \<and> (delayed_unread_chars s = [] \<and> (ws = [] \<or> m \<noteq> TestInput)
          \<and> (\<forall>w\<in>set ws. isspace (of_char w) \<and> (of_char w :: int) \<noteq> 10)
          \<and> drop (consumed inp s) inp = ws @ sign_text is_minus @ ds @ rest \<longrightarrow>
           (\<exists>s'. scan_Num T min_val max_val s = Done (with_sign is_minus (decimal_value ds)) s'
                 \<and> consumed inp s'
                     = consumed inp s + length ws + length (sign_text is_minus) + length ds))"
proof (intro conjI impI)
  from fmin fmax bounds have fit: "fits T (with_sign is_minus (decimal_value ds))"
    by (rule fits_convex)
  from sg have sg': "is_minus \<Longrightarrow> \<not> is_unsigned T" by simp
  {
    assume h: "and_then (read_delayed_unread_chars s) (\<lambda>_ s1. ignore_ws_if_lenient s1) = Done () s1
          \<and> drop (consumed inp s1) inp = sign_text is_minus @ ds @ rest"
    from reached_conf [OF reach] obtain d n where c: "conf inp m l d s n" by blast
    from h have pro: "and_then (read_delayed_unread_chars s) (\<lambda>_ s1. ignore_ws_if_lenient s1) = Done () s1"
      and inp: "drop (consumed inp s1) inp = sign_text is_minus @ ds @ rest" by simp_all
    from scan_Num_ok_at [OF c pro inp ds rest sg' fit bounds] obtain s' where
      r: "scan_Num T min_val max_val s = Done (with_sign is_minus (decimal_value ds)) s'"
      and c': "conf inp m l [] s' (consumed inp s1 + length (sign_text is_minus) + length ds)"
      by blast
    from r conf_consumed [OF c']
    show "\<exists>s'. scan_Num T min_val max_val s = Done (with_sign is_minus (decimal_value ds)) s'
                 \<and> consumed inp s' = consumed inp s1 + length (sign_text is_minus) + length ds"
      by simp
  }
  {
    assume h: "delayed_unread_chars s = [] \<and> (ws = [] \<or> m \<noteq> TestInput)
          \<and> (\<forall>w\<in>set ws. isspace (of_char w) \<and> (of_char w :: int) \<noteq> 10)
          \<and> drop (consumed inp s) inp = ws @ sign_text is_minus @ ds @ rest"
    then have q: "delayed_unread_chars s = []" and md: "ws = [] \<or> m \<noteq> TestInput"
      and ws: "\<forall>w\<in>set ws. isspace (of_char w) \<and> (of_char w :: int) \<noteq> 10"
      and inp: "drop (consumed inp s) inp = ws @ sign_text is_minus @ ds @ rest" by simp_all
    note c = reached_conf_empty [OF reach q]
    from number_starts_nonspace [OF ds, of is_minus rest] obtain y r where
      y: "sign_text is_minus @ ds @ rest = y # r" "\<not> isspace (of_char y)" by auto
    from inp y have inp': "drop (consumed inp s) inp = ws @ y # r" by simp
    from prologue_skip_blanks [OF c md inp' ws y(2)] obtain s1 where
      pro: "and_then (read_delayed_unread_chars s) (\<lambda>_ s1. ignore_ws_if_lenient s1) = Done () s1"
      and c1: "conf inp m l [] s1 (consumed inp s + length ws)"
      and d1: "drop (consumed inp s1) inp = y # r" by blast
    from d1 y have inp1: "drop (consumed inp s1) inp = sign_text is_minus @ ds @ rest" by simp
    note n1 = conf_consumed [OF c1]
    from scan_Num_ok_at [OF c pro inp1 ds rest sg' fit bounds] obtain s' where
      r: "scan_Num T min_val max_val s = Done (with_sign is_minus (decimal_value ds)) s'"
      and c': "conf inp m l [] s' (consumed inp s1 + length (sign_text is_minus) + length ds)"
      by blast
    from r conf_consumed [OF c'] n1
    show "\<exists>s'. scan_Num T min_val max_val s = Done (with_sign is_minus (decimal_value ds)) s'
                 \<and> consumed inp s'
                     = consumed inp s + length ws + length (sign_text is_minus) + length ds"
      by simp
  }
qed

theorem scan_Num_parses_digit_run_witness:
  "returned (scan_Num (Signed 32) (- 2147483648) 2147483647
       (new_Scanner ''2147483647'' TestInput EN)) = Some 2147483647
   \<and> returned (scan_Num (Signed 32) (- 2147483648) 2147483647
       (new_Scanner ''  007'' UserOutput EN)) = Some 7
   \<and> returned (run_calls integer_arith
        [CharLit 120, CharLit 10, ReadNum (Signed 32) (- 2147483648) 2147483647]
        (new_Scanner ''x\<newline>-007 '' TestInput EN)) = Some [Unit, Unit, NumVal (- 7)]"
proof -
  let ?N = "scan_Num (Signed 32) (- 2147483648) 2147483647"
  have q0: "delayed_unread_chars (new_Scanner inp m l) = []" for inp m l
    by (simp add: new_Scanner_def)
  have n0: "consumed inp (new_Scanner inp m l) = 0" for inp m l
    by (simp add: consumed_def new_Scanner_def)
  from scan_Num_parses_digit_run
    [where F = integer_arith and cs = "[]" and inp = "''2147483647''" and m = TestInput and l = EN
       and vs = "[]" and s = "new_Scanner ''2147483647'' TestInput EN"
       and ds = "''2147483647''" and rest = "[]" and ws = "[]"
       and is_minus = False and T = "Signed 32"
       and min_val = "- 2147483648" and max_val = 2147483647, THEN conjunct2]
  have a: "\<exists>s'. ?N (new_Scanner ''2147483647'' TestInput EN) = Done 2147483647 s'"
    by (auto simp: isdigit_def fits_def with_sign_def sign_text_def q0 n0)
  from scan_Num_parses_digit_run
    [where F = integer_arith and cs = "[]" and inp = "''  007''" and m = UserOutput and l = EN
       and vs = "[]" and s = "new_Scanner ''  007'' UserOutput EN"
       and ds = "''007''" and rest = "[]" and ws = "''  ''"
       and is_minus = False and T = "Signed 32"
       and min_val = "- 2147483648" and max_val = 2147483647, THEN conjunct2]
  have b: "\<exists>s'. ?N (new_Scanner ''  007'' UserOutput EN) = Done 7 s'"
    by (auto simp: isdigit_def isspace_def fits_def with_sign_def sign_text_def q0 n0)
  let ?inp = "''x\<newline>-007 ''"
  obtain S where reach: "run_calls integer_arith [CharLit 120, CharLit 10] (new_Scanner ?inp TestInput EN)
      = Done [Unit, Unit] S" and q: "delayed_unread_chars S = []" and n: "consumed ?inp S = 2"
    by (simp add: run_call_def scan_char_def enqueues_def isspace_def
      read_delayed_unread_chars_def ignore_ws_if_lenient_def and_then_def new_Scanner_def
      getchar_def getc_unlocked_def EOF_def advance_def Let_def consumed_def)
  from reach q n scan_Num_parses_digit_run
    [where F = integer_arith and cs = "[CharLit 120, CharLit 10]" and inp = ?inp and m = TestInput
       and l = EN and vs = "[Unit, Unit]" and s = S
       and ds = "''007''" and rest = "'' ''" and ws = "[]"
       and is_minus = True and T = "Signed 32"
       and min_val = "- 2147483648" and max_val = 2147483647, THEN conjunct2]
  have "\<exists>s'. ?N S = Done (- 7) s'"
    by (auto simp: isdigit_def fits_def with_sign_def sign_text_def)
  with reach run_calls_append [of integer_arith "[CharLit 120, CharLit 10]"
      "[ReadNum (Signed 32) (- 2147483648) 2147483647]" "new_Scanner ?inp TestInput EN"]
  have "returned (run_calls integer_arith
        [CharLit 120, CharLit 10, ReadNum (Signed 32) (- 2147483648) 2147483647]
        (new_Scanner ?inp TestInput EN)) = Some [Unit, Unit, NumVal (- 7)]"
    by (auto simp: run_call_def and_then_def returned_def)
  with a b show ?thesis by (auto simp: returned_def)
qed

section \<open>Deferred obligations at the end of the stream\<close>

text \<open>
  Claim C10: in the modes UserOutput and Lax a literal whitespace or newline character is
  only put into the queue of deferred obligations, and matching the end of the stream
  empties that queue without reading anything for it: the result of \<^verbatim>\<open>operator>>(EofType)\<close>
  does not depend on the queue, so any run of whitespace and newline matches followed by
  an end-of-stream match behaves as the end-of-stream match alone. In particular, once all
  the bytes of the stream are consumed, such a run succeeds: a newline required right
  before the end of the stream is never checked. The finalization of a UserOutput scanner
  is that same end-of-stream match, and the finalization of a Lax scanner does nothing.
\<close>

theorem eof_discards_deferred_obligations:
  assumes "mode s = UserOutput \<or> mode s = Lax"
  shows "scan_eof (s\<lparr>delayed_unread_chars := d\<rparr>) = scan_eof s
       \<and> ((\<forall>c\<in>set ws. isspace c) \<longrightarrow>
            run_calls F (map CharLit ws @ [Eof]) s =
              and_then (scan_eof s) (\<lambda>_ s1. Done (replicate (Suc (length ws)) Unit) s1))
       \<and> ((\<forall>c\<in>set ws. isspace c) \<and> run_calls F cs (new_Scanner inp (mode s) l) = Done vs s
            \<and> length inp \<le> consumed inp s \<longrightarrow>
            (\<exists>s'. run_calls F (map CharLit ws @ [Eof]) s = Done (replicate (Suc (length ws)) Unit) s'))
       \<and> (mode s = UserOutput \<longrightarrow>
            do_destructor_checks (s\<lparr>delayed_unread_chars := d\<rparr>) = scan_eof s)
       \<and> (mode s = Lax \<longrightarrow>
            do_destructor_checks (s\<lparr>delayed_unread_chars := d\<rparr>)
              = Done () (s\<lparr>delayed_unread_chars := d\<rparr>))"
proof (intro conjI impI)
  from assms have m: "mode s \<noteq> TestInput" by auto
  show "scan_eof (s\<lparr>delayed_unread_chars := d\<rparr>) = scan_eof s"
    by (rule scan_eof_forgets_queue [OF m])
  {
    assume "\<forall>c\<in>set ws. isspace c"
    then show "run_calls F (map CharLit ws @ [Eof]) s =
              and_then (scan_eof s) (\<lambda>_ s1. Done (replicate (Suc (length ws)) Unit) s1)"
      by (rule whitespace_literals_then_eof [OF m])
  }
  {
    assume h: "(\<forall>c\<in>set ws. isspace c) \<and> run_calls F cs (new_Scanner inp (mode s) l) = Done vs s
            \<and> length inp \<le> consumed inp s"
    with run_calls_new_Scanner [of inp "mode s" l F cs] obtain d0 n where
      c: "conf inp (mode s) l d0 s n" by (auto simp: res_conf_def)
    from conf_consumed [OF c] h have n: "length inp \<le> n" by simp
    from eof_skip_loop_at_end [OF conf_update_delayed [OF c, of "[]"] n] obtain s' where
      "eof_skip_loop (s\<lparr>delayed_unread_chars := []\<rparr>) = Done () s'" by blast
    with assms have "scan_eof s = Done () s'" by (auto simp: scan_eof_def)
    with whitespace_literals_then_eof [OF m, of ws F] h
    show "\<exists>s'. run_calls F (map CharLit ws @ [Eof]) s = Done (replicate (Suc (length ws)) Unit) s'"
      by (simp add: and_then_def)
  }
  {
    assume "mode s = UserOutput"
    then show "do_destructor_checks (s\<lparr>delayed_unread_chars := d\<rparr>) = scan_eof s"
      by (simp add: do_destructor_checks_def scan_eof_def)
  }
  {
    assume "mode s = Lax"
    then show "do_destructor_checks (s\<lparr>delayed_unread_chars := d\<rparr>)
              = Done () (s\<lparr>delayed_unread_chars := d\<rparr>)"
      by (simp add: do_destructor_checks_def)
  }
qed

theorem eof_discards_deferred_obligations_witness:
  "returned (run_calls integer_arith [CharLit 32, CharLit 10, Eof] (new_Scanner [] UserOutput EN))
     = Some [Unit, Unit, Unit]"
proof -
  let ?s = "new_Scanner [] UserOutput EN"
  have m: "mode ?s = UserOutput" by (simp add: new_Scanner_def)
  then have "mode ?s = UserOutput \<or> mode ?s = Lax" by simp
  from eof_discards_deferred_obligations [OF this, of "[]" "[32, 10]" integer_arith "[]" "[]" EN "[]"]
  have c3: "(\<forall>c\<in>set [32, 10]. isspace c)
            \<and> run_calls integer_arith [] (new_Scanner [] (mode ?s) EN) = Done [] ?s
            \<and> length ([]::string) \<le> consumed [] ?s \<longrightarrow>
            (\<exists>s'. run_calls integer_arith (map CharLit [32, 10] @ [Eof]) ?s
                    = Done (replicate (Suc (length [32, 10 :: int])) Unit) s')"
    by blast
  have "(\<forall>c\<in>set [32, 10]. isspace c)
            \<and> run_calls integer_arith [] (new_Scanner [] (mode ?s) EN) = Done [] ?s
            \<and> length ([]::string) \<le> consumed [] ?s"
    by (simp add: isspace_def m)
  with c3 obtain s' where "run_calls integer_arith (map CharLit [32, 10] @ [Eof]) ?s
                    = Done (replicate (Suc (length [32, 10 :: int])) Unit) s'" by blast
  then show ?thesis by (simp add: returned_def)
qed

end
